theory Spec2Isabelle
  imports Complex_Main "HOL-Library.AList"
begin

section \<open>Sales series reconstruction (graphique\_dual\_axes/frontend/index.js, DetailPage)\<close>

text \<open>
  Modelling conventions for the sales pipeline.
  \<^item> A calendar day (the string \<^verbatim>\<open>row.date.split('T')[0]\<close>, and the keys produced by
    \<^verbatim>\<open>d.toISOString().split('T')[0]\<close>) is an \<open>int\<close>: the number of the day. The
    lexicographic order of ISO day strings is the order of the day numbers. Every row
    has a date.
  \<^item> The time value of a \<^verbatim>\<open>Date\<close> is an \<open>int\<close>: the number of hours since the epoch, in
    UTC. How the host's time zone enters is described below.
  \<^item> A JSON number that may be \<^verbatim>\<open>null\<close> is an \<open>option\<close>; \<^verbatim>\<open>x || 0\<close> is \<open>or0\<close>.
    Ticket counts are \<open>int\<close>, money is \<open>rat\<close> (the rounding of floating-point sums is
    left out).
  \<^item> A JavaScript object used as a dictionary is an association list in insertion
    order: assigning an existing key keeps its position, a new key goes to the end
    (\<open>AList.update\<close>); \<^verbatim>\<open>Object.keys\<close> is \<open>map fst\<close> and a lookup is \<open>map_of\<close>. (Record
    identifiers are not numerals, which \<^verbatim>\<open>Object.keys\<close> would list first.)
  \<^item> The display-only field \<^verbatim>\<open>dateLabel\<close> of a point is left out.
\<close>

record row =
  record_id :: string
  row_date :: int
  row_sold :: "int option"
  row_free :: "int option"
  row_total :: "rat option"

text \<open>The objects \<^verbatim>\<open>{sold, free, total}\<close> stored in \<^verbatim>\<open>byDay\<close>, \<^verbatim>\<open>last\<close> and \<^verbatim>\<open>lastKnown\<close>.\<close>

record entry =
  e_sold :: int
  e_free :: int
  e_total :: rat

text \<open>The objects \<^verbatim>\<open>{date, ventes, gratuits, total_dollars}\<close> pushed to \<^verbatim>\<open>formatted\<close>.\<close>

record point =
  date :: int
  ventes :: int
  gratuits :: int
  total_dollars :: rat

definition or0 :: "'a::zero option \<Rightarrow> 'a" where
  "or0 v = (case v of None \<Rightarrow> 0 | Some x \<Rightarrow> x)"

definition entry_of :: "row \<Rightarrow> entry" where
  "entry_of r = \<lparr>e_sold = or0 (row_sold r), e_free = or0 (row_free r), e_total = or0 (row_total r)\<rparr>"

definition zero_entry :: entry where
  "zero_entry = \<lparr>e_sold = 0, e_free = 0, e_total = 0\<rparr>"

text \<open>The three \<^verbatim>\<open>Math.max\<close> assignments.\<close>

definition max_entry :: "entry \<Rightarrow> entry \<Rightarrow> entry" where
  "max_entry known e =
     \<lparr>e_sold = max (e_sold known) (e_sold e),
      e_free = max (e_free known) (e_free e),
      e_total = max (e_total known) (e_total e)\<rparr>"

text \<open>\<^verbatim>\<open>if (byDay[key]) { last.sold = Math.max(last.sold, byDay[key].sold); ... }\<close>\<close>

definition carry :: "entry \<Rightarrow> entry option \<Rightarrow> entry" where
  "carry known x = (case x of None \<Rightarrow> known | Some e \<Rightarrow> max_entry known e)"

definition mk_point :: "int \<Rightarrow> entry \<Rightarrow> point" where
  "mk_point d known =
     \<lparr>date = d, ventes = e_sold known, gratuits = e_free known, total_dollars = e_total known\<rparr>"

subsection \<open>Dates\<close>

text \<open>
  The loops over the calendar use three operations of \<^verbatim>\<open>Date\<close>.
  \<^item> \<^verbatim>\<open>new Date(day)\<close> for a day string \<^verbatim>\<open>YYYY-MM-DD\<close> is midnight UTC of that day.
  \<^item> \<^verbatim>\<open>d.toISOString().split('T')[0]\<close> is the UTC day of the time value.
  \<^item> \<^verbatim>\<open>d.setDate(d.getDate() + 1)\<close> works in the local time of the host: it moves to the
    next local calendar date and keeps the local time of day. The time value advances by
    24 hours when the UTC offset of the host's zone is the same on both local dates, by
    23 hours when the zone has moved its clocks forward in between, and by 25 hours when
    it has moved them back.
  The host's zone is a parameter: for a time value it tells how the clocks change between
  the local date of that instant and the next one. Days are numbered, and a time value is
  counted in hours from midnight UTC of day 0.
\<close>

datatype clock_change = Unchanged | SpringForward | FallBack

type_synonym zone = "int \<Rightarrow> clock_change"

definition date_of_day :: "int \<Rightarrow> int" where
  "date_of_day day = 24 * day"

definition iso_day :: "int \<Rightarrow> int" where
  "iso_day t = t div 24"

definition next_date :: "zone \<Rightarrow> int \<Rightarrow> int" where
  "next_date z t =
     t + 24 + (case z t of Unchanged \<Rightarrow> 0 | SpringForward \<Rightarrow> - 1 | FallBack \<Rightarrow> 1)"

subsection \<open>Single-performance mode\<close>

text \<open>\<^verbatim>\<open>data.forEach((row) => { byDay[day] = {...}; })\<close>\<close>

definition index_byDay :: "row list \<Rightarrow> (int \<times> entry) list" where
  "index_byDay data = fold (\<lambda>r byDay. AList.update (row_date r) (entry_of r) byDay) data []"

text \<open>
  \<^verbatim>\<open>for (let d = new Date(start); d <= end; d.setDate(d.getDate() + 1))\<close> with the body
  that reads \<^verbatim>\<open>key = d.toISOString().split('T')[0]\<close>; \<open>d\<close> and \<open>e\<close> are time values.
\<close>

function fill_days :: "zone \<Rightarrow> (int \<times> entry) list \<Rightarrow> int \<Rightarrow> int \<Rightarrow> entry \<Rightarrow> point list" where
  "fill_days z byDay d e known =
     (if d \<le> e
      then (let key = iso_day d;
                known' = carry known (map_of byDay key)
            in mk_point key known' # fill_days z byDay (next_date z d) e known')
      else [])"
  by pat_completeness auto
termination
proof (relation "measure (\<lambda>(z, byDay, d, e, known). nat (e + 1 - d))")
  show "wf (measure (\<lambda>(z, byDay, d, e, known). nat (e + 1 - d)))" by simp
next
  fix z :: zone and byDay :: "(int \<times> entry) list" and d e :: int and known x xa :: entry
  assume "d \<le> e"
  then show "((z, byDay, next_date z d, e, xa), (z, byDay, d, e, known))
       \<in> measure (\<lambda>(z, byDay, d, e, known). nat (e + 1 - d))"
    by (cases "z d") (simp_all add: next_date_def)
qed

declare fill_days.simps [simp del]

definition single_series :: "zone \<Rightarrow> row list \<Rightarrow> point list" where
  "single_series z data =
     (let byDay = index_byDay data;
          days = sort (map fst byDay)
      in if length days > 0
         then fill_days z byDay (date_of_day (days ! 0))
                (date_of_day (days ! (length days - 1))) zero_entry
         else [])"

subsection \<open>Aggregate mode\<close>

text \<open>\<^verbatim>\<open>allDatesSet.add(day)\<close>: a \<^verbatim>\<open>Set\<close> keeps its elements in insertion order.\<close>

definition set_add :: "'a \<Rightarrow> 'a list \<Rightarrow> 'a list" where
  "set_add x s = (if x \<in> set s then s else s @ [x])"

text \<open>
  \<^verbatim>\<open>data.forEach((row) => { allDatesSet.add(day); if (!byRecord[rid]) byRecord[rid] = {};
  byRecord[rid][day] = {...}; })\<close>
\<close>

definition index_byRecord :: "row list \<Rightarrow> (string \<times> (int \<times> entry) list) list \<times> int list" where
  "index_byRecord data =
     fold (\<lambda>r (byRecord, allDatesSet).
             (let rid = record_id r;
                  day = row_date r;
                  days = (case map_of byRecord rid of None \<Rightarrow> [] | Some m \<Rightarrow> m)
              in (AList.update rid (AList.update day (entry_of r) days) byRecord,
                  set_add day allDatesSet)))
          data ([], [])"

definition add_entry :: "entry \<Rightarrow> entry \<Rightarrow> entry" where
  "add_entry tally known =
     \<lparr>e_sold = e_sold tally + e_sold known,
      e_free = e_free tally + e_free known,
      e_total = e_total tally + e_total known\<rparr>"

text \<open>
  The body of \<^verbatim>\<open>for (const rid of recordIds)\<close>: the state is \<^verbatim>\<open>lastKnown\<close> with the three
  running sums \<^verbatim>\<open>sumSold, sumFree, sumTotal\<close>.
\<close>

definition agg_rid ::
  "(string \<times> (int \<times> entry) list) list \<Rightarrow> int \<Rightarrow> string \<Rightarrow>
   (string \<rightharpoonup> entry) \<times> entry \<Rightarrow> (string \<rightharpoonup> entry) \<times> entry" where
  "agg_rid byRecord day rid = (\<lambda>(lastKnown, tally).
     (let lastKnown' =
            (case map_of byRecord rid of
               None \<Rightarrow> lastKnown
             | Some days \<Rightarrow>
                 (case map_of days day of
                    None \<Rightarrow> lastKnown
                  | Some e \<Rightarrow>
                      (let known = (case lastKnown rid of None \<Rightarrow> zero_entry | Some k \<Rightarrow> k)
                       in lastKnown(rid \<mapsto> max_entry known e))))
      in (lastKnown',
          (case lastKnown' rid of None \<Rightarrow> tally | Some k \<Rightarrow> add_entry tally k))))"

function fill_all ::
  "zone \<Rightarrow> (string \<times> (int \<times> entry) list) list \<Rightarrow> string list \<Rightarrow> int \<Rightarrow> int \<Rightarrow>
   (string \<rightharpoonup> entry) \<Rightarrow> point list" where
  "fill_all z byRecord recordIds d e lastKnown =
     (if d \<le> e
      then (let day = iso_day d;
                (lastKnown', tally) = fold (agg_rid byRecord day) recordIds (lastKnown, zero_entry)
            in mk_point day tally # fill_all z byRecord recordIds (next_date z d) e lastKnown')
      else [])"
  by pat_completeness auto
termination
proof (relation "measure (\<lambda>(z, byRecord, recordIds, d, e, lastKnown). nat (e + 1 - d))")
  show "wf (measure (\<lambda>(z, byRecord, recordIds, d, e, lastKnown). nat (e + 1 - d)))" by simp
next
  fix z :: zone and byRecord :: "(string \<times> (int \<times> entry) list) list" and recordIds :: "string list"
    and d e :: int and lastKnown x1 :: "string \<rightharpoonup> entry" and xa :: int
    and x :: "(string \<rightharpoonup> entry) \<times> entry" and x2 :: entry
  assume "d \<le> e"
  then show "((z, byRecord, recordIds, next_date z d, e, x1), (z, byRecord, recordIds, d, e, lastKnown))
       \<in> measure (\<lambda>(z, byRecord, recordIds, d, e, lastKnown). nat (e + 1 - d))"
    by (cases "z d") (simp_all add: next_date_def)
qed

declare fill_all.simps [simp del]

text \<open>
  With no rows \<^verbatim>\<open>sortedDates[0]\<close> is \<^verbatim>\<open>undefined\<close>, both dates are invalid, the comparison
  \<^verbatim>\<open>d <= end\<close> is false and the loop body never runs: the result is the empty list.
\<close>

definition aggregate_series :: "zone \<Rightarrow> row list \<Rightarrow> point list" where
  "aggregate_series z data =
     (let (byRecord, allDatesSet) = index_byRecord data;
          sortedDates = sort allDatesSet;
          recordIds = map fst byRecord
      in if length sortedDates > 0
         then fill_all z byRecord recordIds (date_of_day (sortedDates ! 0))
                (date_of_day (sortedDates ! (length sortedDates - 1))) Map.empty
         else [])"

text \<open>The value of \<^verbatim>\<open>formatted\<close>.\<close>

definition reconstruct :: "zone \<Rightarrow> bool \<Rightarrow> row list \<Rightarrow> point list" where
  "reconstruct z isAllMode data =
     (if isAllMode then aggregate_series z data else single_series z data)"

subsection \<open>Date-range filter and period statistics\<close>

text \<open>
  \<^verbatim>\<open>dateFrom\<close> and \<^verbatim>\<open>dateTo\<close> are day strings, empty when unset: \<open>None\<close> is the empty string.
\<close>

definition filteredSalesData :: "point list \<Rightarrow> int option \<Rightarrow> int option \<Rightarrow> point list" where
  "filteredSalesData salesData dateFrom dateTo =
     (if length salesData = 0 then salesData
      else (let data1 = (case dateFrom of None \<Rightarrow> salesData
                         | Some f \<Rightarrow> filter (\<lambda>d. date d \<ge> f) salesData);
                data2 = (case dateTo of None \<Rightarrow> data1
                         | Some t \<Rightarrow> filter (\<lambda>d. date d \<le> t) data1)
            in data2))"

text \<open>
  \<^verbatim>\<open>Array.prototype.indexOf\<close>: the first index holding the element, or \<open>-1\<close>. JavaScript
  compares the point objects by identity, the model by value; the two agree on every
  call made here, because the element searched for is the first one that passes a
  filter on \<open>date\<close> and an equal point would pass the same filter.
\<close>

fun indexOf :: "'a list \<Rightarrow> 'a \<Rightarrow> int" where
  "indexOf [] x = - 1"
| "indexOf (y # ys) x =
     (if y = x then 0 else (let i = indexOf ys x in if i < 0 then - 1 else i + 1))"

record stats =
  ventesInPeriod :: int
  revenusInPeriod :: rat

definition periodStats :: "point list \<Rightarrow> point list \<Rightarrow> stats option" where
  "periodStats salesData filtered =
     (if length filtered < 1 then None
      else (let first = filtered ! 0;
                lst = filtered ! (length filtered - 1);
                baseIndex = indexOf salesData first;
                base = (if baseIndex > 0 then salesData ! nat (baseIndex - 1)
                        else \<lparr>date = 0, ventes = 0, gratuits = 0, total_dollars = 0\<rparr>)
            in Some \<lparr>ventesInPeriod = ventes lst - ventes base,
                      revenusInPeriod = total_dollars lst - total_dollars base\<rparr>))"

subsection \<open>The calendar, day by day\<close>

text \<open>
  What the two loops are meant to compute: one point for every calendar day from the
  first to the last, with the day numbers as loop variable. The proofs compare the loops
  of the source with these.
\<close>

function calendar_days :: "(int \<times> entry) list \<Rightarrow> int \<Rightarrow> int \<Rightarrow> entry \<Rightarrow> point list" where
  "calendar_days byDay d e known =
     (if d \<le> e
      then (let known' = carry known (map_of byDay d)
            in mk_point d known' # calendar_days byDay (d + 1) e known')
      else [])"
  by pat_completeness auto
termination
  by (relation "measure (\<lambda>(byDay, d, e, known). nat (e + 1 - d))") auto

declare calendar_days.simps [simp del]

definition single_calendar :: "row list \<Rightarrow> point list" where
  "single_calendar data =
     (let byDay = index_byDay data;
          days = sort (map fst byDay)
      in if length days > 0
         then calendar_days byDay (days ! 0) (days ! (length days - 1)) zero_entry
         else [])"

function calendar_all ::
  "(string \<times> (int \<times> entry) list) list \<Rightarrow> string list \<Rightarrow> int \<Rightarrow> int \<Rightarrow>
   (string \<rightharpoonup> entry) \<Rightarrow> point list" where
  "calendar_all byRecord recordIds d e lastKnown =
     (if d \<le> e
      then (let (lastKnown', tally) = fold (agg_rid byRecord d) recordIds (lastKnown, zero_entry)
            in mk_point d tally # calendar_all byRecord recordIds (d + 1) e lastKnown')
      else [])"
  by pat_completeness auto
termination
  by (relation "measure (\<lambda>(byRecord, recordIds, d, e, lastKnown). nat (e + 1 - d))") auto

declare calendar_all.simps [simp del]

definition aggregate_calendar :: "row list \<Rightarrow> point list" where
  "aggregate_calendar data =
     (let (byRecord, allDatesSet) = index_byRecord data;
          sortedDates = sort allDatesSet;
          recordIds = map fst byRecord
      in if length sortedDates > 0
         then calendar_all byRecord recordIds (sortedDates ! 0)
                (sortedDates ! (length sortedDates - 1)) Map.empty
         else [])"

text \<open>The zone does not change its clocks from midnight UTC of day \<open>lo\<close> to midnight UTC of
  day \<open>hi\<close>.\<close>

definition steady :: "zone \<Rightarrow> int \<Rightarrow> int \<Rightarrow> bool" where
  "steady z lo hi \<longleftrightarrow> (\<forall>t. date_of_day lo \<le> t \<and> t \<le> date_of_day hi \<longrightarrow> z t = Unchanged)"

text \<open>A zone that never changes its clocks, as UTC.\<close>

definition utc :: zone where
  "utc = (\<lambda>t. Unchanged)"

text \<open>
  A zone that moves its clocks forward once, during the local day that follows the
  instant 48 (midnight UTC of day 2), and a zone that moves them back then.
\<close>

definition spring_zone :: zone where
  "spring_zone = (\<lambda>t. if t = 48 then SpringForward else Unchanged)"

definition autumn_zone :: zone where
  "autumn_zone = (\<lambda>t. if t = 48 then FallBack else Unchanged)"

subsection \<open>Notions used to state the properties of the series\<close>

text \<open>The last row of a day in fetch order, if the day has a row.\<close>

definition last_row_of_day :: "row list \<Rightarrow> int \<Rightarrow> row option" where
  "last_row_of_day data d =
     (let rs = filter (\<lambda>r. row_date r = d) data in if rs = [] then None else Some (last rs))"

text \<open>The value of \<^verbatim>\<open>last\<close> after the days \<open>d\<close> to \<open>k\<close> have been handled, one by one.\<close>

definition known_after :: "(int \<times> entry) list \<Rightarrow> int \<Rightarrow> int \<Rightarrow> entry \<Rightarrow> entry" where
  "known_after byDay d k known = fold (\<lambda>j acc. carry acc (map_of byDay j)) [d..k] known"

text \<open>The three cumulative values of a point.\<close>

definition point_entry :: "point \<Rightarrow> entry" where
  "point_entry p = \<lparr>e_sold = ventes p, e_free = gratuits p, e_total = total_dollars p\<rparr>"

text \<open>The values reported by the point before index \<open>j\<close>; zero before the first point.\<close>

definition known_before :: "point list \<Rightarrow> nat \<Rightarrow> entry" where
  "known_before s j =
     (if j = 0 then zero_entry
      else point_entry (s ! (j - 1)))"

text \<open>One performance, cumulative sold 10 on day 1 and 8 on day 3.\<close>

definition anomaly_rows :: "row list" where
  "anomaly_rows =
     [\<lparr>record_id = ''recP'', row_date = 1, row_sold = Some 10, row_free = None, row_total = None\<rparr>,
      \<lparr>record_id = ''recP'', row_date = 3, row_sold = Some 8, row_free = None, row_total = None\<rparr>]"

text \<open>Component-wise order of the three cumulative values.\<close>

definition entry_le :: "entry \<Rightarrow> entry \<Rightarrow> bool" where
  "entry_le a b \<longleftrightarrow> e_sold a \<le> e_sold b \<and> e_free a \<le> e_free b \<and> e_total a \<le> e_total b"

text \<open>The rows of one performance, in fetch order.\<close>

definition rows_of :: "string \<Rightarrow> row list \<Rightarrow> row list" where
  "rows_of rid data = filter (\<lambda>r. record_id r = rid) data"

text \<open>\<^verbatim>\<open>byRecord[rid]\<close> as a day index, empty when the performance has no rows.\<close>

definition days_of :: "(string \<times> (int \<times> entry) list) list \<Rightarrow> string \<Rightarrow> (int \<times> entry) list" where
  "days_of byRecord rid = (case map_of byRecord rid of None \<Rightarrow> [] | Some m \<Rightarrow> m)"

text \<open>The values a performance adds to the sums: \<^verbatim>\<open>lastKnown[rid]\<close>, or nothing when it is unset.\<close>

definition lk_val :: "(string \<rightharpoonup> entry) \<Rightarrow> string \<Rightarrow> entry" where
  "lk_val lastKnown rid = (case lastKnown rid of None \<Rightarrow> zero_entry | Some k \<Rightarrow> k)"

text \<open>Component-wise sum of a list of cumulative values.\<close>

definition sum_entries :: "entry list \<Rightarrow> entry" where
  "sum_entries xs =
     \<lparr>e_sold = sum_list (map e_sold xs), e_free = sum_list (map e_free xs),
      e_total = sum_list (map e_total xs)\<rparr>"

text \<open>What one performance contributes to the aggregate on day \<open>d\<close>: nothing before its
  first observed day, the value of its own day-by-day single-performance series on the
  days of its span, and the last value of that series afterwards.\<close>

definition contribution :: "row list \<Rightarrow> int \<Rightarrow> entry" where
  "contribution rows d =
     (if rows = [] then zero_entry
      else (let lo = Min (row_date ` set rows); hi = Max (row_date ` set rows)
            in if d < lo then zero_entry
               else point_entry (single_calendar rows ! nat (min d hi - lo))))"

text \<open>Two performances over three days: A has rows on days 1 and 3, B on day 2.\<close>

definition two_perf_rows :: "row list" where
  "two_perf_rows =
     [\<lparr>record_id = ''recA'', row_date = 1, row_sold = Some 5, row_free = None, row_total = None\<rparr>,
      \<lparr>record_id = ''recB'', row_date = 2, row_sold = Some 3, row_free = None, row_total = None\<rparr>,
      \<lparr>record_id = ''recA'', row_date = 3, row_sold = Some 7, row_free = None, row_total = None\<rparr>]"

text \<open>Two rows of one performance for the same day, the earlier one higher.\<close>

definition same_day_rows :: "row list" where
  "same_day_rows =
     [\<lparr>record_id = ''recA'', row_date = 1, row_sold = Some 10, row_free = Some 2, row_total = Some 50\<rparr>,
      \<lparr>record_id = ''recA'', row_date = 1, row_sold = Some 4, row_free = Some 1, row_total = Some 20\<rparr>]"

text \<open>\<^verbatim>\<open>recordIds = Object.keys(byRecord)\<close>\<close>

definition performances :: "row list \<Rightarrow> string list" where
  "performances data = map fst (fst (index_byRecord data))"

text \<open>The body of the indexing \<^verbatim>\<open>forEach\<close> of the aggregate mode, named for the proofs.\<close>

definition idx_step :: "row \<Rightarrow> (string \<times> (int \<times> entry) list) list \<times> int list \<Rightarrow> (string \<times> (int \<times> entry) list) list \<times> int list" where
  "idx_step = (\<lambda>r (byRecord, allDatesSet).
             (let rid = record_id r;
                  day = row_date r;
                  days = (case map_of byRecord rid of None \<Rightarrow> [] | Some m \<Rightarrow> m)
              in (AList.update rid (AList.update day (entry_of r) days) byRecord,
                  set_add day allDatesSet)))"

subsection \<open>Notions used to state the period statistics\<close>

text \<open>A point passes the date-range filter: both bounds are inclusive, an unset bound admits every day.\<close>

definition in_range :: "int option \<Rightarrow> int option \<Rightarrow> point \<Rightarrow> bool" where
  "in_range dateFrom dateTo p \<longleftrightarrow>
     (case dateFrom of None \<Rightarrow> True | Some f \<Rightarrow> f \<le> date p) \<and>
     (case dateTo of None \<Rightarrow> True | Some t \<Rightarrow> date p \<le> t)"

text \<open>The index of the first point of the series that passes the filter.\<close>

definition first_in_range :: "int option \<Rightarrow> int option \<Rightarrow> point list \<Rightarrow> nat" where
  "first_in_range dateFrom dateTo s = length (takeWhile (\<lambda>p. \<not> in_range dateFrom dateTo p) s)"

text \<open>The index of the last point of the series that passes the filter.\<close>

definition last_in_range :: "int option \<Rightarrow> int option \<Rightarrow> point list \<Rightarrow> nat" where
  "last_in_range dateFrom dateTo s =
     length s - 1 - length (takeWhile (\<lambda>p. \<not> in_range dateFrom dateTo p) (rev s))"

text \<open>A series with cumulative sold 0, 4, 10, 10, 15 on days 1 to 5.\<close>

definition five_day_series :: "point list" where
  "five_day_series =
     [\<lparr>date = 1, ventes = 0, gratuits = 0, total_dollars = 0\<rparr>,
      \<lparr>date = 2, ventes = 4, gratuits = 0, total_dollars = 40\<rparr>,
      \<lparr>date = 3, ventes = 10, gratuits = 0, total_dollars = 100\<rparr>,
      \<lparr>date = 4, ventes = 10, gratuits = 0, total_dollars = 100\<rparr>,
      \<lparr>date = 5, ventes = 15, gratuits = 0, total_dollars = 150\<rparr>]"

section \<open>Paginated fetch (graphique\_dual\_axes/frontend/index.js, fetchSales)\<close>

text \<open>
  The remote service is a parameter: a function from the \<^verbatim>\<open>limit\<close> and \<^verbatim>\<open>offset\<close> of a
  request to what the awaited \<^verbatim>\<open>fetch\<close> and \<^verbatim>\<open>response.json()\<close> deliver, either a
  response that is not \<^verbatim>\<open>ok\<close> (with its status) or the page of rows.
\<close>

datatype response = NotOk nat | Json "row list"

definition pageSize :: nat where
  "pageSize = 1000"

text \<open>How one iteration of \<^verbatim>\<open>while (true)\<close> ends once its response has arrived.\<close>

datatype iteration =
    Throw nat
  | Break "row list"
  | Return
  | Continue "row list" nat

text \<open>
  The loop body after the two awaits. \<open>didCancel\<close> is the value the flag has when the
  body reads it, which it does only after a full page.
\<close>

definition loop_body :: "response \<Rightarrow> bool \<Rightarrow> row list \<Rightarrow> nat \<Rightarrow> iteration" where
  "loop_body resp didCancel data offset =
     (case resp of
        NotOk status \<Rightarrow> Throw status
      | Json page \<Rightarrow>
          (let data' = data @ page
           in if length page < pageSize then Break data'
              else (let offset' = offset + pageSize
                    in if didCancel then Return else Continue data' offset')))"


subsection \<open>Notions used to state the pagination property\<close>






section \<open>Issuing and superseding requests (DetailPage, the fetch effect)\<close>

text \<open>
  The effect that fetches the sales runs on a single thread. Each run of the effect
  creates one closure with its own \<^verbatim>\<open>didCancel\<close>, \<^verbatim>\<open>data\<close> and \<^verbatim>\<open>offset\<close>; the closure
  runs until its next \<^verbatim>\<open>await\<close> and continues, later and without interruption, when the
  awaited response arrives. The model is a state machine with two kinds of events:
  \<^item> \<open>Render d\<close>: the dependencies of the effect have changed to \<open>d\<close>. React runs the
    cleanup that the previous run of the effect returned, if it returned one, and then
    the body of the effect, up to the first \<^verbatim>\<open>await\<close> of \<^verbatim>\<open>fetchSales\<close>.
  \<^item> \<open>Resolve i resp\<close>: the response awaited by the \<open>i\<close>-th closure arrives, and the
    closure runs up to its next \<^verbatim>\<open>await\<close> or to its end.
  The two awaits of one loop iteration (\<^verbatim>\<open>fetch\<close> and \<^verbatim>\<open>response.json()\<close>) are one
  event, since the closure touches no state between them. The host's zone \<open>z\<close> is the one
  the reconstruction of the series runs in.
\<close>

record fetch_closure =
  cacheKey :: string
  isAllMode :: bool
  didCancel :: bool
  fetched :: "row list"
  next_offset :: nat
  in_flight :: bool

record detail_page =
  salesData :: "point list"
  loading :: bool
  error :: "nat option"
  cacheRef :: "string \<rightharpoonup> point list"
  closures :: "fetch_closure list"
  cleanup :: "nat option"

text \<open>The dependencies the effect reads: whether \<^verbatim>\<open>supabaseUrl\<close> and \<^verbatim>\<open>supabaseAnonKey\<close> are
  both set, \<^verbatim>\<open>selectedRepId\<close> (\<open>None\<close> for \<^verbatim>\<open>null\<close>) and the joined string \<^verbatim>\<open>allRepIds\<close>.\<close>

record deps =
  configured :: bool
  selectedRepId :: "string option"
  allRepIds :: string

datatype event = Render deps | Resolve nat response

definition initial_page :: detail_page where
  "initial_page =
     \<lparr>salesData = [], loading = False, error = None, cacheRef = Map.empty,
      closures = [], cleanup = None\<rparr>"

text \<open>\<^verbatim>\<open>return () => { didCancel = true; }\<close>\<close>

definition run_cleanup :: "detail_page \<Rightarrow> detail_page" where
  "run_cleanup st =
     (case cleanup st of
        None \<Rightarrow> st
      | Some i \<Rightarrow> st\<lparr>closures := (closures st)[i := (closures st ! i)\<lparr>didCancel := True\<rparr>]\<rparr>)"

text \<open>
  The body of the effect with the synchronous start of \<^verbatim>\<open>fetchSales\<close>. The two early
  returns create no closure and return no cleanup. Otherwise the new closure is the last
  of the list and its cleanup is the one React keeps.
\<close>

definition run_effect :: "deps \<Rightarrow> detail_page \<Rightarrow> detail_page" where
  "run_effect d st =
     (if \<not> configured d
      then st\<lparr>salesData := [], loading := False, error := None, cleanup := None\<rparr>
      else (let allMode = (case selectedRepId d of None \<Rightarrow> True | Some rid \<Rightarrow> rid = '''')
            in if allMode \<and> allRepIds d = ''''
               then st\<lparr>salesData := [], cleanup := None\<rparr>
               else (let key = (if allMode then ''all_'' @ allRepIds d
                                else (case selectedRepId d of None \<Rightarrow> '''' | Some rid \<Rightarrow> rid));
                         closure = \<lparr>cacheKey = key, isAllMode = allMode, didCancel = False,
                                    fetched = [], next_offset = 0, in_flight = False\<rparr>;
                         me = length (closures st)
                     in (case cacheRef st key of
                           Some series \<Rightarrow>
                             st\<lparr>salesData := series, loading := False,
                                closures := closures st @ [closure], cleanup := Some me\<rparr>
                         | None \<Rightarrow>
                             st\<lparr>loading := True, error := None,
                                closures := closures st @ [closure\<lparr>in_flight := True\<rparr>],
                                cleanup := Some me\<rparr>))))"

text \<open>
  The continuation of the \<open>i\<close>-th closure when its response arrives: the loop body, and
  after the loop the guarded commit (\<^verbatim>\<open>if (!didCancel) { ... cacheRef.current.set(cacheKey,
  formatted); setSalesData(formatted); setLoading(false); }\<close>) or the guarded \<^verbatim>\<open>catch\<close>.
\<close>

definition resolve :: "zone \<Rightarrow> nat \<Rightarrow> response \<Rightarrow> detail_page \<Rightarrow> detail_page" where
  "resolve z i resp st =
     (if i < length (closures st) \<and> in_flight (closures st ! i)
      then (let c = closures st ! i;
                ended = st\<lparr>closures := (closures st)[i := c\<lparr>in_flight := False\<rparr>]\<rparr>
            in case loop_body resp (didCancel c) (fetched c) (next_offset c) of
                 Continue data' offset' \<Rightarrow>
                   st\<lparr>closures := (closures st)[i := c\<lparr>fetched := data', next_offset := offset'\<rparr>]\<rparr>
               | Return \<Rightarrow> ended
               | Throw status \<Rightarrow>
                   (if \<not> didCancel c then ended\<lparr>error := Some status, loading := False\<rparr>
                    else ended)
               | Break data' \<Rightarrow>
                   (if \<not> didCancel c
                    then (let formatted = reconstruct z (isAllMode c) data'
                          in ended\<lparr>cacheRef := (cacheRef st)(cacheKey c \<mapsto> formatted),
                                   salesData := formatted, loading := False\<rparr>)
                    else ended))
      else st)"

definition step :: "zone \<Rightarrow> event \<Rightarrow> detail_page \<Rightarrow> detail_page" where
  "step z ev st =
     (case ev of
        Render d \<Rightarrow> run_effect d (run_cleanup st)
      | Resolve i resp \<Rightarrow> resolve z i resp st)"

definition run :: "zone \<Rightarrow> event list \<Rightarrow> detail_page \<Rightarrow> detail_page" where
  "run z evs st = fold (step z) evs st"

subsection \<open>Notions used to state the cancellation property\<close>

text \<open>The dependencies when one performance is selected.\<close>

definition select_rep :: "string \<Rightarrow> deps" where
  "select_rep rid = \<lparr>configured = True, selectedRepId = Some rid, allRepIds = ''recA,recB''\<rparr>"

text \<open>A short page of rows of performance A.\<close>

definition page_A :: "row list" where
  "page_A = [\<lparr>record_id = ''recA'', row_date = 1, row_sold = Some 5, row_free = None, row_total = None\<rparr>]"

text \<open>A short page of rows of performance B.\<close>

definition page_B :: "row list" where
  "page_B = [\<lparr>record_id = ''recB'', row_date = 2, row_sold = Some 3, row_free = None, row_total = None\<rparr>]"

text \<open>The page after a request for performance A was issued and then superseded by a request for performance B.\<close>

definition two_requests :: detail_page where
  "two_requests = run utc [Render (select_rep ''recA''), Render (select_rep ''recB'')] initial_page"

text \<open>A request for A, superseded by a request for B; the response for B arrives first, the response for A last.\<close>

definition superseded_run :: "event list" where
  "superseded_run =
     [Render (select_rep ''recA''), Render (select_rep ''recB''),
      Resolve 1 (Json page_B), Resolve 0 (Json page_A)]"

text \<open>At most one closure is not cancelled: the one whose cleanup React holds, which is the
  closure issued last.\<close>

definition one_current :: "detail_page \<Rightarrow> bool" where
  "one_current st \<longleftrightarrow>
     (\<forall>i < length (closures st). \<not> didCancel (closures st ! i) \<longrightarrow> cleanup st = Some i) \<and>
     (\<forall>i. cleanup st = Some i \<longrightarrow> Suc i = length (closures st))"

section \<open>Routing grid (RoutageApp)\<close>

text \<open>
  Two variants of the grid exist in the repository. Variant A (the file with the site,
  week and canal filters and the totals row) keeps one row per event and linked week;
  variant B (routage/routage/frontend/index.js) keeps one row per event, linked week and
  linked bloc. The constants and functions of variant A carry the suffix \<open>_A\<close>, those of
  variant B the suffix \<open>_B\<close>.

  Modelling conventions for the grid.
  \<^item> A record of a host table is a HOL record of the cell values the code reads. The
    value of a link cell (\<^verbatim>\<open>getCellValue\<close> of a linked-record field) is \<open>None\<close> for
    \<^verbatim>\<open>null\<close> and otherwise the list of the linked record ids; a value that is not an
    array is treated like \<^verbatim>\<open>null\<close>, as \<^verbatim>\<open>Array.isArray\<close> does. The value of the days
    cell is the list of the selected option names.
  \<^item> The start date of a week is the result of \<^verbatim>\<open>parseAirtableDate\<close>: \<open>None\<close> for
    \<^verbatim>\<open>null\<close>, otherwise the time value \<^verbatim>\<open>getTime()\<close> of the date.
  \<^item> A \<^verbatim>\<open>Map\<close> that is only looked up is a HOL map; a \<^verbatim>\<open>Map\<close> whose values are
    enumerated is an association list in insertion order.
  \<^item> A \<^verbatim>\<open>Set\<close> of strings that is only asked \<^verbatim>\<open>has\<close> is a HOL set.
  \<^item> \<^verbatim>\<open>Array.prototype.sort\<close> belongs to the JavaScript engine, not to the repository:
    the sorting procedure is a parameter \<open>srt\<close> of the functions that sort.
\<close>

record week_rec =
  wr_id :: string
  wr_name :: string
  wr_dateDebut :: "int option"
  wr_dateFin :: "int option"

record bloc_rec =
  br_id :: string
  br_name :: string

record event_rec =
  ev_id :: string
  ev_name :: string
  ev_weekLinks :: "string list option"
  ev_blocLinks :: "string list option"
  ev_siteLinks :: "string list option"
  ev_canalLinks :: "string list option"
  ev_jours :: "string list option"

text \<open>The values of \<^verbatim>\<open>weeksMap\<close>.\<close>

record week_info =
  info_name :: string
  info_dateDebut :: "int option"
  info_dateFin :: "int option"

text \<open>The fields every entry of \<^verbatim>\<open>gridData\<close> has, in both variants.\<close>

record week_head =
  weekId :: string
  weekName :: string
  dateDebut :: "int option"
  dateFin :: "int option"

text \<open>An event row: \<^verbatim>\<open>{eventName, activeDays}\<close> in variant B, with \<^verbatim>\<open>eventId\<close> and
  \<^verbatim>\<open>blocNames\<close> added in variant A.\<close>

record row_B =
  eventName :: string
  activeDays :: "string set"

record row_A = row_B +
  eventId :: string
  blocNames :: "string set"

record week_A = week_head +
  events :: "row_A list"

record week_B = week_head +
  blocs :: "(string \<times> row_B list) list"

record selection =
  selectedSiteId :: string
  selectedWeekId :: string
  selectedCanalId :: string

definition build_weeksMap :: "week_rec list \<Rightarrow> (string \<rightharpoonup> week_info)" where
  "build_weeksMap weekRecords =
     fold (\<lambda>wr m. m(wr_id wr \<mapsto>
             \<lparr>info_name = wr_name wr, info_dateDebut = wr_dateDebut wr, info_dateFin = wr_dateFin wr\<rparr>))
          weekRecords Map.empty"

definition build_blocsMap :: "bloc_rec list \<Rightarrow> (string \<rightharpoonup> string)" where
  "build_blocsMap blocRecords = fold (\<lambda>br m. m(br_id br \<mapsto> br_name br)) blocRecords Map.empty"

text \<open>\<^verbatim>\<open>Array.isArray(linked) && linked.some((s) => s.id === selected)\<close>\<close>

definition links_some :: "string list option \<Rightarrow> string \<Rightarrow> bool" where
  "links_some linked selected = (case linked of None \<Rightarrow> False | Some ls \<Rightarrow> selected \<in> set ls)"

text \<open>\<^verbatim>\<open>activeDays\<close>: the names of the selected options, empty when the cell is not an array.\<close>

definition days_of_event :: "event_rec \<Rightarrow> string set" where
  "days_of_event event = (case ev_jours event of None \<Rightarrow> {} | Some js \<Rightarrow> set js)"

subsection \<open>Variant A: one row per event and week\<close>

definition BLOC_ORDER_A :: "string list" where
  "BLOC_ORDER_A = [''am'', ''pm'', ''soir'', ''nuit'']"

definition DAY_CODES_A :: "string list" where
  "DAY_CODES_A = [''D'', ''L'', ''Ma'', ''Me'', ''J'', ''V'', ''S'']"

definition ALERT_THRESHOLD :: nat where
  "ALERT_THRESHOLD = 5"

text \<open>\<^verbatim>\<open>blocNames\<close>: the names of the linked blocs found in \<^verbatim>\<open>blocsMap\<close>.\<close>

definition blocNames_of :: "(string \<rightharpoonup> string) \<Rightarrow> string list \<Rightarrow> string set" where
  "blocNames_of blocsMap linkedBlocs = set (List.map_filter blocsMap linkedBlocs)"

definition mk_row_A :: "(string \<rightharpoonup> string) \<Rightarrow> event_rec \<Rightarrow> string list \<Rightarrow> row_A" where
  "mk_row_A blocsMap event linkedBlocs =
     \<lparr>eventName = ev_name event, activeDays = days_of_event event,
      eventId = ev_id event, blocNames = blocNames_of blocsMap linkedBlocs\<rparr>"

text \<open>
  The body of \<^verbatim>\<open>for (const weekLink of linkedWeeks)\<close>. Creating the entry of a new week and
  pushing the row onto its \<^verbatim>\<open>events\<close> are one update of the association list: the entry
  keeps its place when it exists and goes to the end when it is new.
\<close>

definition add_week_A ::
  "string \<Rightarrow> (string \<rightharpoonup> week_info) \<Rightarrow> row_A \<Rightarrow> string \<Rightarrow> (string \<times> week_A) list \<Rightarrow>
   (string \<times> week_A) list" where
  "add_week_A selWeek weeksMap r wid gridData =
     (if selWeek \<noteq> ''__all__'' \<and> wid \<noteq> selWeek then gridData
      else (case weeksMap wid of
              None \<Rightarrow> gridData
            | Some weekInfo \<Rightarrow>
                (let entry = (case map_of gridData wid of
                                None \<Rightarrow> \<lparr>weekId = wid, weekName = info_name weekInfo,
                                         dateDebut = info_dateDebut weekInfo,
                                         dateFin = info_dateFin weekInfo, events = []\<rparr>
                              | Some g \<Rightarrow> g)
                 in AList.update wid (entry\<lparr>events := events entry @ [r]\<rparr>) gridData)))"

text \<open>The body of \<^verbatim>\<open>for (const event of eventRecords)\<close>; every \<^verbatim>\<open>continue\<close> returns the grid
  unchanged.\<close>

definition process_event_A ::
  "selection \<Rightarrow> (string \<rightharpoonup> week_info) \<Rightarrow> (string \<rightharpoonup> string) \<Rightarrow> event_rec \<Rightarrow>
   (string \<times> week_A) list \<Rightarrow> (string \<times> week_A) list" where
  "process_event_A sel weeksMap blocsMap event gridData =
     (if selectedSiteId sel \<noteq> ''__all__'' \<and> \<not> links_some (ev_siteLinks event) (selectedSiteId sel)
      then gridData
      else if selectedCanalId sel \<noteq> ''__all__'' \<and>
              \<not> links_some (ev_canalLinks event) (selectedCanalId sel)
      then gridData
      else (case ev_weekLinks event of
              None \<Rightarrow> gridData
            | Some linkedWeeks \<Rightarrow>
                (case ev_blocLinks event of
                   None \<Rightarrow> gridData
                 | Some linkedBlocs \<Rightarrow>
                     fold (add_week_A (selectedWeekId sel) weeksMap
                             (mk_row_A blocsMap event linkedBlocs))
                          linkedWeeks gridData)))"

definition gridData_A ::
  "selection \<Rightarrow> week_rec list \<Rightarrow> bloc_rec list \<Rightarrow> event_rec list \<Rightarrow> (string \<times> week_A) list" where
  "gridData_A sel weekRecords blocRecords eventRecords =
     fold (process_event_A sel (build_weeksMap weekRecords) (build_blocsMap blocRecords))
          eventRecords []"

text \<open>The comparator passed to \<^verbatim>\<open>sort\<close>, the same in both variants.\<close>

definition week_cmp :: "'a week_head_scheme \<Rightarrow> 'b week_head_scheme \<Rightarrow> int" where
  "week_cmp a b =
     (case dateDebut a of
        None \<Rightarrow> 1
      | Some ta \<Rightarrow> (case dateDebut b of None \<Rightarrow> - 1 | Some tb \<Rightarrow> ta - tb))"

definition sortedWeeks_A ::
  "((week_A \<Rightarrow> week_A \<Rightarrow> int) \<Rightarrow> week_A list \<Rightarrow> week_A list) \<Rightarrow> bool \<Rightarrow> selection \<Rightarrow>
   week_rec list \<Rightarrow> bloc_rec list \<Rightarrow> event_rec list \<Rightarrow> week_A list" where
  "sortedWeeks_A srt allConfigured sel weekRecords blocRecords eventRecords =
     (if \<not> allConfigured then []
      else srt week_cmp (map snd (gridData_A sel weekRecords blocRecords eventRecords)))"

text \<open>The inner loop of the totals: \<^verbatim>\<open>for (const ev of events) if (...) count++\<close>.\<close>

definition count_cell :: "row_A list \<Rightarrow> string \<Rightarrow> string \<Rightarrow> nat" where
  "count_cell evs bloc dayCode =
     fold (\<lambda>ev count. if bloc \<in> blocNames ev \<and> dayCode \<in> activeDays ev then count + 1 else count)
          evs 0"

text \<open>\<^verbatim>\<open>totals[bloc] = DAY_CODES.map(...)\<close> for every bloc of \<^verbatim>\<open>BLOC_ORDER\<close>.\<close>

definition totals :: "row_A list \<Rightarrow> (string \<times> nat list) list" where
  "totals evs = map (\<lambda>bloc. (bloc, map (count_cell evs bloc) DAY_CODES_A)) BLOC_ORDER_A"

text \<open>\<^verbatim>\<open>const isActive = inBloc && event.activeDays.has(dayCode)\<close>\<close>

definition isActive_A :: "row_A \<Rightarrow> string \<Rightarrow> string \<Rightarrow> bool" where
  "isActive_A event blocName dayCode \<longleftrightarrow> blocName \<in> blocNames event \<and> dayCode \<in> activeDays event"

text \<open>
  A cell of the totals row: the flag that selects the alert styling and the child of the
  \<^verbatim>\<open>td\<close>, \<^verbatim>\<open>{count || ''}\<close>, which is the number itself or the empty string.
\<close>

datatype child = Number nat | Text string

record total_cell =
  overLimit :: bool
  content :: child

definition render_total :: "nat \<Rightarrow> total_cell" where
  "render_total count =
     \<lparr>overLimit = (count > ALERT_THRESHOLD),
      content = (if count = 0 then Text '''' else Number count)\<rparr>"

text \<open>The cells of the totals row after the label, bloc by bloc and day by day.\<close>

definition totals_row :: "row_A list \<Rightarrow> total_cell list" where
  "totals_row evs =
     concat (map (\<lambda>blocName. map render_total
                    (case map_of (totals evs) blocName of None \<Rightarrow> [] | Some counts \<Rightarrow> counts))
                 BLOC_ORDER_A)"

subsection \<open>Variant B: one row per event, week and bloc\<close>

definition BLOC_ORDER_B :: "string list" where
  "BLOC_ORDER_B = [''AM'', ''PM'', ''SOIR'', ''NUIT'']"

definition DAY_CODES_B :: "string list" where
  "DAY_CODES_B = [''D'', ''L'', ''M'', ''M2'', ''J'', ''V'', ''S'']"

definition mk_row_B :: "event_rec \<Rightarrow> row_B" where
  "mk_row_B event = \<lparr>eventName = ev_name event, activeDays = days_of_event event\<rparr>"

text \<open>The body of \<^verbatim>\<open>for (const blocLink of linkedBlocs)\<close>.\<close>

definition add_bloc_B ::
  "(string \<rightharpoonup> string) \<Rightarrow> row_B \<Rightarrow> string \<Rightarrow> (string \<times> row_B list) list \<Rightarrow>
   (string \<times> row_B list) list" where
  "add_bloc_B blocsMap r blocId bs =
     (case blocsMap blocId of
        None \<Rightarrow> bs
      | Some blocName \<Rightarrow>
          AList.update blocName
            ((case map_of bs blocName of None \<Rightarrow> [] | Some evs \<Rightarrow> evs) @ [r]) bs)"

text \<open>The body of \<^verbatim>\<open>for (const weekLink of linkedWeeks)\<close>.\<close>

definition add_week_B ::
  "(string \<rightharpoonup> week_info) \<Rightarrow> (string \<rightharpoonup> string) \<Rightarrow> row_B \<Rightarrow> string list \<Rightarrow> string \<Rightarrow>
   (string \<times> week_B) list \<Rightarrow> (string \<times> week_B) list" where
  "add_week_B weeksMap blocsMap r linkedBlocs wid gridData =
     (case weeksMap wid of
        None \<Rightarrow> gridData
      | Some weekInfo \<Rightarrow>
          (let weekEntry = (case map_of gridData wid of
                              None \<Rightarrow> \<lparr>weekId = wid, weekName = info_name weekInfo,
                                       dateDebut = info_dateDebut weekInfo,
                                       dateFin = info_dateFin weekInfo, blocs = []\<rparr>
                            | Some g \<Rightarrow> g)
           in AList.update wid
                (weekEntry\<lparr>blocs := fold (add_bloc_B blocsMap r) linkedBlocs (blocs weekEntry)\<rparr>)
                gridData))"

definition process_event_B ::
  "(string \<rightharpoonup> week_info) \<Rightarrow> (string \<rightharpoonup> string) \<Rightarrow> event_rec \<Rightarrow>
   (string \<times> week_B) list \<Rightarrow> (string \<times> week_B) list" where
  "process_event_B weeksMap blocsMap event gridData =
     (case ev_weekLinks event of
        None \<Rightarrow> gridData
      | Some linkedWeeks \<Rightarrow>
          (case ev_blocLinks event of
             None \<Rightarrow> gridData
           | Some linkedBlocs \<Rightarrow>
               fold (add_week_B weeksMap blocsMap (mk_row_B event) linkedBlocs)
                    linkedWeeks gridData))"

definition gridData_B ::
  "week_rec list \<Rightarrow> bloc_rec list \<Rightarrow> event_rec list \<Rightarrow> (string \<times> week_B) list" where
  "gridData_B weekRecords blocRecords eventRecords =
     fold (process_event_B (build_weeksMap weekRecords) (build_blocsMap blocRecords))
          eventRecords []"

definition sortedWeeks_B ::
  "((week_B \<Rightarrow> week_B \<Rightarrow> int) \<Rightarrow> week_B list \<Rightarrow> week_B list) \<Rightarrow> bool \<Rightarrow>
   week_rec list \<Rightarrow> bloc_rec list \<Rightarrow> event_rec list \<Rightarrow> week_B list" where
  "sortedWeeks_B srt allConfigured weekRecords blocRecords eventRecords =
     (if \<not> allConfigured then []
      else srt week_cmp (map snd (gridData_B weekRecords blocRecords eventRecords)))"

text \<open>\<^verbatim>\<open>Math.max(1, ...BLOC_ORDER.map((bn) => bd ? bd.events.length : 0))\<close>\<close>

definition maxEvents :: "week_B \<Rightarrow> nat" where
  "maxEvents weekData =
     fold max (map (\<lambda>bn. case map_of (blocs weekData) bn of None \<Rightarrow> 0 | Some evs \<Rightarrow> length evs)
                   BLOC_ORDER_B) 1"

text \<open>
  The event of the cell group of a bloc in a body row: \<^verbatim>\<open>blocData ? blocData.events[rowIdx] :
  null\<close>; an index past the end gives \<^verbatim>\<open>undefined\<close>, here \<open>None\<close> as well.
\<close>

definition cell_event_B :: "week_B \<Rightarrow> nat \<Rightarrow> string \<Rightarrow> row_B option" where
  "cell_event_B weekData rowIdx blocName =
     (case map_of (blocs weekData) blocName of
        None \<Rightarrow> None
      | Some evs \<Rightarrow> (if rowIdx < length evs then Some (evs ! rowIdx) else None))"

text \<open>The body rows of a week: for every row index below \<open>maxEvents\<close>, one cell group per
  bloc of \<^verbatim>\<open>BLOC_ORDER\<close>.\<close>

definition body_rows_B :: "week_B \<Rightarrow> (string \<times> row_B option) list list" where
  "body_rows_B weekData =
     map (\<lambda>rowIdx. map (\<lambda>blocName. (blocName, cell_event_B weekData rowIdx blocName)) BLOC_ORDER_B)
         [0..<maxEvents weekData]"

subsection \<open>Notions used to state the properties of the grid\<close>

text \<open>The number of event rows of a week that are marked active in the cell of a bloc and a day: the occupancy of the cell.\<close>

definition marks_A :: "row_A list \<Rightarrow> string \<Rightarrow> string \<Rightarrow> nat" where
  "marks_A evs blocName dayCode = length (filter (\<lambda>ev. isActive_A ev blocName dayCode) evs)"

text \<open>An event row active in the cell of bloc am and day D only.\<close>

definition marked_row :: row_A where
  "marked_row = \<lparr>eventName = ''Atelier'', activeDays = {''D''}, eventId = ''recE'', blocNames = {''am''}\<rparr>"

text \<open>The occupancy count of the cell (W, B, D) in a grid: the total of the week's entry, zero when the week has no entry.\<close>

definition cell_count :: "(string \<times> week_A) list \<Rightarrow> string \<Rightarrow> string \<Rightarrow> string \<Rightarrow> nat" where
  "cell_count gridData W B D =
     (case map_of gridData W of None \<Rightarrow> 0 | Some weekData \<Rightarrow> count_cell (events weekData) B D)"

text \<open>The occupancy count of the cell (W, B, D) of the grid built from the records.\<close>

definition occupancy_A ::
  "selection \<Rightarrow> week_rec list \<Rightarrow> bloc_rec list \<Rightarrow> event_rec list \<Rightarrow> string \<Rightarrow> string \<Rightarrow> string \<Rightarrow> nat" where
  "occupancy_A sel weekRecords blocRecords eventRecords W B D =
     cell_count (gridData_A sel weekRecords blocRecords eventRecords) W B D"

text \<open>The event passes the site filter and the canal filter.\<close>

definition passes_filters :: "selection \<Rightarrow> event_rec \<Rightarrow> bool" where
  "passes_filters sel e \<longleftrightarrow>
     (selectedSiteId sel = ''__all__'' \<or> links_some (ev_siteLinks e) (selectedSiteId sel)) \<and>
     (selectedCanalId sel = ''__all__'' \<or> links_some (ev_canalLinks e) (selectedCanalId sel))"

text \<open>The week passes the week filter and is present in the weeks table.\<close>

definition week_shown :: "selection \<Rightarrow> (string \<rightharpoonup> week_info) \<Rightarrow> string \<Rightarrow> bool" where
  "week_shown sel weeksMap W \<longleftrightarrow>
     (selectedWeekId sel = ''__all__'' \<or> W = selectedWeekId sel) \<and> weeksMap W \<noteq> None"

text \<open>The links of a link cell, none when the cell is null.\<close>

definition links_of :: "string list option \<Rightarrow> string list" where
  "links_of cell = (case cell of None \<Rightarrow> [] | Some ls \<Rightarrow> ls)"

text \<open>One of the linked blocs of the event is in the blocs table under the name \<open>B\<close>.\<close>

definition in_bloc :: "(string \<rightharpoonup> string) \<Rightarrow> event_rec \<Rightarrow> string \<Rightarrow> bool" where
  "in_bloc blocsMap e B \<longleftrightarrow> (\<exists>b \<in> set (links_of (ev_blocLinks e)). blocsMap b = Some B)"

text \<open>The number of rows that one event adds to the cell (W, B, D): one per occurrence of
  \<open>W\<close> among its week links when the event passes the filters, has both link cells set,
  is in bloc \<open>B\<close> and is active on day \<open>D\<close>, and none otherwise.\<close>

definition contribution_A ::
  "selection \<Rightarrow> (string \<rightharpoonup> week_info) \<Rightarrow> (string \<rightharpoonup> string) \<Rightarrow> event_rec \<Rightarrow>
   string \<Rightarrow> string \<Rightarrow> string \<Rightarrow> nat" where
  "contribution_A sel weeksMap blocsMap e W B D =
     (if passes_filters sel e \<and> ev_weekLinks e \<noteq> None \<and> ev_blocLinks e \<noteq> None \<and>
         week_shown sel weeksMap W \<and> in_bloc blocsMap e B \<and> D \<in> days_of_event e
      then count_list (links_of (ev_weekLinks e)) W else 0)"

text \<open>A link cell after the links selected by \<open>gone\<close> are removed; a cell left without links reads null.\<close>

definition unlink :: "(string \<Rightarrow> bool) \<Rightarrow> string list option \<Rightarrow> string list option" where
  "unlink gone cell =
     (case cell of
        None \<Rightarrow> None
      | Some ls \<Rightarrow> (case filter (\<lambda>l. \<not> gone l) ls of [] \<Rightarrow> None | l # ls' \<Rightarrow> Some (l # ls')))"

text \<open>The event without its link to week \<open>W\<close>.\<close>

definition remove_week :: "string \<Rightarrow> event_rec \<Rightarrow> event_rec" where
  "remove_week W e = e\<lparr>ev_weekLinks := unlink (\<lambda>w. w = W) (ev_weekLinks e)\<rparr>"

text \<open>The event without its links to the blocs named \<open>B\<close>.\<close>

definition remove_bloc :: "(string \<rightharpoonup> string) \<Rightarrow> string \<Rightarrow> event_rec \<Rightarrow> event_rec" where
  "remove_bloc blocsMap B e = e\<lparr>ev_blocLinks := unlink (\<lambda>b. blocsMap b = Some B) (ev_blocLinks e)\<rparr>"

text \<open>The event without the active day \<open>D\<close>.\<close>

definition remove_day :: "string \<Rightarrow> event_rec \<Rightarrow> event_rec" where
  "remove_day D e = e\<lparr>ev_jours := unlink (\<lambda>d. d = D) (ev_jours e)\<rparr>"

text \<open>A weeks table with one week.\<close>

definition grid_weeks :: "week_rec list" where
  "grid_weeks = [\<lparr>wr_id = ''recW1'', wr_name = ''Semaine 1'', wr_dateDebut = Some 0, wr_dateFin = None\<rparr>]"

text \<open>A blocs table with the blocs am and pm.\<close>

definition grid_blocs :: "bloc_rec list" where
  "grid_blocs = [\<lparr>br_id = ''recB1'', br_name = ''am''\<rparr>, \<lparr>br_id = ''recB2'', br_name = ''pm''\<rparr>]"

text \<open>No filter is set.\<close>

definition show_all :: selection where
  "show_all = \<lparr>selectedSiteId = ''__all__'', selectedWeekId = ''__all__'', selectedCanalId = ''__all__''\<rparr>"

text \<open>An event of week 1 and bloc am, active on the days D and L.\<close>

definition two_day_event :: event_rec where
  "two_day_event =
     \<lparr>ev_id = ''recE1'', ev_name = ''Atelier'', ev_weekLinks = Some [''recW1''],
      ev_blocLinks = Some [''recB1''], ev_siteLinks = None, ev_canalLinks = None,
      ev_jours = Some [''D'', ''L'']\<rparr>"

text \<open>The row \<open>r\<close> of the entry of week \<open>wid\<close> is the row of event \<open>e\<close> (variant A): the event
  passes the filters, both of its link cells are set, it links the week, and the week
  passes the week filter and is present in the weeks table.\<close>

definition from_event_A ::
  "selection \<Rightarrow> (string \<rightharpoonup> week_info) \<Rightarrow> (string \<rightharpoonup> string) \<Rightarrow> event_rec \<Rightarrow> string \<Rightarrow> row_A \<Rightarrow> bool" where
  "from_event_A sel weeksMap blocsMap e wid r \<longleftrightarrow>
     passes_filters sel e \<and> week_shown sel weeksMap wid \<and>
     wid \<in> set (links_of (ev_weekLinks e)) \<and> ev_weekLinks e \<noteq> None \<and> ev_blocLinks e \<noteq> None \<and>
     r = mk_row_A blocsMap e (links_of (ev_blocLinks e))"

text \<open>The row \<open>r\<close> under bloc \<open>blocName\<close> in the entry of week \<open>wid\<close> is the row of event \<open>e\<close>
  (variant B): both link cells of the event are set, it links the week, which is present
  in the weeks table, and one of its linked blocs is in the blocs table under that name.\<close>

definition from_event_B ::
  "(string \<rightharpoonup> week_info) \<Rightarrow> (string \<rightharpoonup> string) \<Rightarrow> event_rec \<Rightarrow> string \<Rightarrow> string \<Rightarrow> row_B \<Rightarrow> bool" where
  "from_event_B weeksMap blocsMap e wid blocName r \<longleftrightarrow>
     weeksMap wid \<noteq> None \<and>
     wid \<in> set (links_of (ev_weekLinks e)) \<and> ev_weekLinks e \<noteq> None \<and> ev_blocLinks e \<noteq> None \<and>
     (\<exists>b \<in> set (links_of (ev_blocLinks e)). blocsMap b = Some blocName) \<and>
     r = mk_row_B e"

text \<open>An event of week 1 whose only linked bloc is absent from the blocs table.\<close>

definition orphan_bloc_event :: event_rec where
  "orphan_bloc_event =
     \<lparr>ev_id = ''recE2'', ev_name = ''Visite'', ev_weekLinks = Some [''recW1''],
      ev_blocLinks = Some [''recBX''], ev_siteLinks = None, ev_canalLinks = None,
      ev_jours = Some [''D'']\<rparr>"

text \<open>An event of week 1 whose bloc cell is null.\<close>

definition no_bloc_event :: event_rec where
  "no_bloc_event =
     \<lparr>ev_id = ''recE3'', ev_name = ''Relache'', ev_weekLinks = Some [''recW1''],
      ev_blocLinks = None, ev_siteLinks = None, ev_canalLinks = None,
      ev_jours = Some [''D'']\<rparr>"

text \<open>The grid of variant A for the single event of the example.\<close>

definition demo_grid_A :: "(string \<times> week_A) list" where
  "demo_grid_A = gridData_A show_all grid_weeks grid_blocs [two_day_event]"

text \<open>The grid of variant B for the single event of the example.\<close>

definition demo_grid_B :: "(string \<times> week_B) list" where
  "demo_grid_B = gridData_B grid_weeks grid_blocs [two_day_event]"

subsection \<open>Two insertion sorts for the sort parameter\<close>

text \<open>
  Engines differ in the argument order in which their sorting procedure calls the
  comparator. The two insertion sorts below both insert the items from left to right into
  the sorted prefix, moving an item to the left past the entries that have to come after
  it; both are stable sorts for a comparator that is a consistent ordering. The first asks
  the comparator about \<open>(entry, item)\<close> and moves on while the answer is positive; the
  second asks about \<open>(item, entry)\<close> and moves on while the answer is negative. The prefix is
  kept in reverse.
\<close>

fun insert_entry_first :: "('a \<Rightarrow> 'a \<Rightarrow> int) \<Rightarrow> 'a \<Rightarrow> 'a list \<Rightarrow> 'a list" where
  "insert_entry_first cmp x [] = [x]"
| "insert_entry_first cmp x (e # es) =
     (if cmp e x > 0 then e # insert_entry_first cmp x es else x # e # es)"

definition sort_entry_first :: "('a \<Rightarrow> 'a \<Rightarrow> int) \<Rightarrow> 'a list \<Rightarrow> 'a list" where
  "sort_entry_first cmp xs = rev (fold (insert_entry_first cmp) xs [])"

fun insert_item_first :: "('a \<Rightarrow> 'a \<Rightarrow> int) \<Rightarrow> 'a \<Rightarrow> 'a list \<Rightarrow> 'a list" where
  "insert_item_first cmp x [] = [x]"
| "insert_item_first cmp x (e # es) =
     (if cmp x e < 0 then e # insert_item_first cmp x es else x # e # es)"

definition sort_item_first :: "('a \<Rightarrow> 'a \<Rightarrow> int) \<Rightarrow> 'a list \<Rightarrow> 'a list" where
  "sort_item_first cmp xs = rev (fold (insert_item_first cmp) xs [])"

text \<open>Weeks for the examples: two without a start date, two with one.\<close>

definition undated_weeks :: "week_rec list" where
  "undated_weeks =
     [\<lparr>wr_id = ''recN1'', wr_name = ''A planifier 1'', wr_dateDebut = None, wr_dateFin = None\<rparr>,
      \<lparr>wr_id = ''recN2'', wr_name = ''A planifier 2'', wr_dateDebut = None, wr_dateFin = None\<rparr>,
      \<lparr>wr_id = ''recD8'', wr_name = ''8 janvier'', wr_dateDebut = Some 8, wr_dateFin = None\<rparr>,
      \<lparr>wr_id = ''recD1'', wr_name = ''1 janvier'', wr_dateDebut = Some 1, wr_dateFin = None\<rparr>]"

text \<open>An event of bloc am that links the given weeks in the given order.\<close>

definition event_in_weeks :: "string list \<Rightarrow> event_rec" where
  "event_in_weeks ws =
     \<lparr>ev_id = ''recE1'', ev_name = ''Atelier'', ev_weekLinks = Some ws,
      ev_blocLinks = Some [''recB1''], ev_siteLinks = None, ev_canalLinks = None,
      ev_jours = Some [''D'']\<rparr>"

text \<open>The entries of the two weeks without a start date, as the grid holds them.\<close>

definition undated_entry :: "string \<Rightarrow> week_A" where
  "undated_entry wid =
     \<lparr>weekId = wid, weekName = '''', dateDebut = None, dateFin = None, events = []\<rparr>"

section \<open>Proofs: the single-performance series, day by day\<close>

lemma map_of_fold_update:
  "map_of (fold (\<lambda>r byDay. AList.update (row_date r) (entry_of r) byDay) data acc) d =
     (case last_row_of_day data d of
        None \<Rightarrow> map_of acc d | Some r \<Rightarrow> Some (entry_of r))"
proof (induction data arbitrary: acc)
  case Nil
  then show ?case by (simp add: last_row_of_day_def)
next
  case (Cons r rs)
  show ?case
    by (simp add: Cons.IH last_row_of_day_def update_conv' Let_def split: option.splits)
qed

lemma map_of_index_byDay:
  "map_of (index_byDay data) d = map_option entry_of (last_row_of_day data d)"
  by (simp add: index_byDay_def map_of_fold_update split: option.splits)

lemma keys_fold_update:
  "fst ` set (fold (\<lambda>r byDay. AList.update (row_date r) (entry_of r) byDay) data acc) =
     row_date ` set data \<union> fst ` set acc"
  by (induction data arbitrary: acc) (auto simp: dom_update)

lemma distinct_fold_update:
  "distinct (map fst acc) \<Longrightarrow>
   distinct (map fst (fold (\<lambda>r byDay. AList.update (row_date r) (entry_of r) byDay) data acc))"
  by (induction data arbitrary: acc) (auto simp: distinct_update)

lemma keys_index_byDay: "set (map fst (index_byDay data)) = row_date ` set data"
  by (simp add: index_byDay_def keys_fold_update)

lemma distinct_index_byDay: "distinct (map fst (index_byDay data))"
  by (simp add: index_byDay_def distinct_fold_update)

lemma sorted_first_Min: "sorted xs \<Longrightarrow> xs \<noteq> [] \<Longrightarrow> xs ! 0 = Min (set xs)"
  by (cases xs) (auto intro!: Min_eqI[symmetric])

lemma sorted_last_Max_aux: "sorted xs \<Longrightarrow> xs \<noteq> [] \<Longrightarrow> last xs = Max (set xs)"
proof (induction xs)
  case Nil
  then show ?case by simp
next
  case (Cons x xs)
  show ?case
  proof (cases "xs = []")
    case True
    then show ?thesis by simp
  next
    case False
    then have "last xs = Max (set xs)" using Cons by simp
    moreover have "x \<le> Max (set xs)" using Cons.prems False
      by (metis List.finite_set Max_ge last_in_set calculation order_trans set_ConsD sorted_simps(2) list.set_intros(1) order_refl)
    ultimately show ?thesis using False by (simp add: max_absorb2)
  qed
qed

lemma sorted_last_Max: "sorted xs \<Longrightarrow> xs \<noteq> [] \<Longrightarrow> xs ! (length xs - 1) = Max (set xs)"
  using sorted_last_Max_aux[of xs] by (simp add: last_conv_nth)

lemma calendar_days_eq:
  "calendar_days byDay d e known = map (\<lambda>k. mk_point k (known_after byDay d k known)) [d..e]"
proof (induction byDay d e known rule: calendar_days.induct)
  case (1 byDay d e known)
  show ?case
  proof (cases "d \<le> e")
    case True
    have "map (\<lambda>k. mk_point k (known_after byDay d k known)) [d+1..e]
        = map (\<lambda>k. mk_point k (known_after byDay (d+1) k (carry known (map_of byDay d)))) [d+1..e]"
      by (rule map_cong) (auto simp: known_after_def upto_rec1[of d])
    then show ?thesis
      using True 1 by (subst calendar_days.simps) (simp add: Let_def upto_rec1[of d e] known_after_def)
  next
    case False
    then show ?thesis by (subst calendar_days.simps) simp
  qed
qed

lemma point_entry_mk_point: "point_entry (mk_point d k) = k"
  by (cases k) (simp add: point_entry_def mk_point_def)

lemma single_calendar_eq:
  assumes "data \<noteq> []"
  shows "single_calendar data =
           map (\<lambda>k. mk_point k (known_after (index_byDay data) (Min (row_date ` set data)) k zero_entry))
               [Min (row_date ` set data) .. Max (row_date ` set data)]"
proof -
  let ?days = "sort (map fst (index_byDay data))"
  have ne: "?days \<noteq> []"
    using assms keys_index_byDay[of data] by (metis empty_is_image set_empty set_sort)
  have st: "set ?days = row_date ` set data"
    using keys_index_byDay[of data] by simp
  have "?days ! 0 = Min (row_date ` set data)"
    using sorted_first_Min[of ?days] ne st by simp
  moreover have "?days ! (length ?days - 1) = Max (row_date ` set data)"
    using sorted_last_Max[of ?days] ne st by simp
  ultimately show ?thesis
    using ne by (simp add: single_calendar_def Let_def calendar_days_eq del: length_sort set_sort)
qed

lemma known_after_step:
  "d \<le> k \<Longrightarrow> known_after byDay d k known =
     carry (if k = d then known else known_after byDay d (k - 1) known) (map_of byDay k)"
  by (auto simp: known_after_def upto_rec2[of d k])

lemma entry_le_carry: "entry_le a b \<Longrightarrow> entry_le a (carry b x)"
  by (auto simp: entry_le_def carry_def max_entry_def split: option.splits)

lemma entry_le_fold_carry:
  "entry_le a b \<Longrightarrow> entry_le a (fold (\<lambda>j acc. carry acc (f j)) xs b)"
  by (induction xs arbitrary: b) (auto intro: entry_le_carry)

lemma known_after_mono:
  assumes "d \<le> k" "k \<le> k'"
  shows "entry_le (known_after byDay d k known) (known_after byDay d k' known)"
proof (cases "k = k'")
  case True
  then show ?thesis by (simp add: entry_le_def)
next
  case False
  then have "[d..k'] = [d..k] @ [k+1..k']"
    using assms upto_split2[of d k k'] by simp
  moreover have "entry_le x (fold (\<lambda>j acc. carry acc (map_of byDay j)) [k+1..k'] x)" for x
    by (rule entry_le_fold_carry) (simp add: entry_le_def)
  ultimately show ?thesis
    by (simp add: known_after_def)
qed

lemma single_calendar_carry_forward:
  assumes "data \<noteq> []" and "i \<le> j" and "j < length (single_calendar data)"
  shows "map date (single_calendar data) = [Min (row_date ` set data) .. Max (row_date ` set data)]
       \<and> single_calendar data ! j =
           mk_point (Min (row_date ` set data) + int j)
             (carry (known_before (single_calendar data) j)
                (map_option entry_of (last_row_of_day data (Min (row_date ` set data) + int j))))
       \<and> ventes (single_calendar data ! i) \<le> ventes (single_calendar data ! j)
       \<and> gratuits (single_calendar data ! i) \<le> gratuits (single_calendar data ! j)
       \<and> total_dollars (single_calendar data ! i) \<le> total_dollars (single_calendar data ! j)"
proof -
  let ?lo = "Min (row_date ` set data)" and ?hi = "Max (row_date ` set data)"
  let ?b = "index_byDay data"
  let ?s = "single_calendar data"
  have eq: "?s = map (\<lambda>k. mk_point k (known_after ?b ?lo k zero_entry)) [?lo..?hi]"
    using assms(1) by (rule single_calendar_eq)
  have len: "length ?s = nat (?hi - ?lo + 1)"
    by (subst eq) simp
  have nth: "?s ! n = mk_point (?lo + int n) (known_after ?b ?lo (?lo + int n) zero_entry)"
    if "n < length ?s" for n
    using that len by (subst eq) (simp add: nth_upto)
  have dates: "map date ?s = [?lo..?hi]"
    by (subst eq) (simp add: mk_point_def o_def)
  have kb: "known_before ?s j =
      (if j = 0 then zero_entry else known_after ?b ?lo (?lo + int j - 1) zero_entry)"
  proof (cases "j = 0")
    case True
    then show ?thesis by (simp add: known_before_def)
  next
    case False
    then have "j - 1 < length ?s" and "?lo + int (j - 1) = ?lo + int j - 1"
      using assms(3) by auto
    then show ?thesis
      using False nth[of "j - 1"] by (simp add: known_before_def point_entry_mk_point add_diff_eq)
  qed
  have step: "?s ! j = mk_point (?lo + int j)
      (carry (known_before ?s j) (map_option entry_of (last_row_of_day data (?lo + int j))))"
    using nth[OF assms(3)] known_after_step[of ?lo "?lo + int j" ?b zero_entry]
    by (simp add: kb map_of_index_byDay)
  have "i < length ?s" using assms by simp
  then have mono: "entry_le (known_after ?b ?lo (?lo + int i) zero_entry)
                     (known_after ?b ?lo (?lo + int j) zero_entry)"
    using assms(2) by (intro known_after_mono) auto
  have m: "ventes (?s ! i) \<le> ventes (?s ! j) \<and> gratuits (?s ! i) \<le> gratuits (?s ! j)
         \<and> total_dollars (?s ! i) \<le> total_dollars (?s ! j)"
    using mono nth[OF assms(3)] nth[OF \<open>i < length ?s\<close>]
    by (simp add: entry_le_def mk_point_def)
  show ?thesis using dates step m by simp
qed

section \<open>Proofs: the aggregate series, day by day\<close>

lemma index_byRecord_alt: "index_byRecord data = fold idx_step data ([], [])"
  by (simp add: index_byRecord_def idx_step_def)

lemma idx_dates:
  "set (snd (fold idx_step data acc)) = row_date ` set data \<union> set (snd acc)"
  by (induction data arbitrary: acc) (auto simp: idx_step_def set_add_def Let_def split: prod.splits)

lemma idx_dates_distinct:
  "distinct (snd acc) \<Longrightarrow> distinct (snd (fold idx_step data acc))"
  by (induction data arbitrary: acc) (auto simp: idx_step_def set_add_def Let_def split: prod.splits)

lemma idx_keys:
  "fst ` set (fst (fold idx_step data acc)) = record_id ` set data \<union> fst ` set (fst acc)"
  by (induction data arbitrary: acc) (auto simp: idx_step_def Let_def dom_update split: prod.splits)

lemma idx_keys_distinct:
  "distinct (map fst (fst acc)) \<Longrightarrow> distinct (map fst (fst (fold idx_step data acc)))"
  by (induction data arbitrary: acc) (auto simp: idx_step_def Let_def distinct_update split: prod.splits)

lemma last_row_of_day_Cons:
  "last_row_of_day (r # rs) d =
     (case last_row_of_day rs d of
        None \<Rightarrow> (if row_date r = d then Some r else None)
      | Some x \<Rightarrow> Some x)"
  by (simp add: last_row_of_day_def Let_def)

lemma days_of_idx_step:
  "map_of (days_of (fst (idx_step r acc)) rid) d =
     (if record_id r = rid \<and> row_date r = d then Some (entry_of r)
      else map_of (days_of (fst acc) rid) d)"
proof -
  obtain b a where acc: "acc = (b, a)" by (cases acc)
  show ?thesis
    by (cases "map_of b (record_id r)")
       (simp_all add: acc idx_step_def days_of_def Let_def update_conv')
qed

lemma idx_lookup:
  "map_of (days_of (fst (fold idx_step data acc)) rid) d =
     (case last_row_of_day (rows_of rid data) d of
        None \<Rightarrow> map_of (days_of (fst acc) rid) d
      | Some r \<Rightarrow> Some (entry_of r))"
proof (induction data arbitrary: acc)
  case Nil
  then show ?case by (simp add: last_row_of_day_def rows_of_def)
next
  case (Cons r rs)
  show ?case
  proof (cases "record_id r = rid")
    case True
    then have "rows_of rid (r # rs) = r # rows_of rid rs" by (simp add: rows_of_def)
    then show ?thesis
      using True by (simp add: Cons.IH days_of_idx_step last_row_of_day_Cons split: option.splits)
  next
    case False
    then have "rows_of rid (r # rs) = rows_of rid rs" by (simp add: rows_of_def)
    then show ?thesis
      using False by (simp add: Cons.IH days_of_idx_step split: option.splits)
  qed
qed

lemma lookup_index_byRecord:
  "map_of (days_of (fst (index_byRecord data)) rid) d =
     map_of (index_byDay (rows_of rid data)) d"
proof -
  have "map_of (days_of (fst ([], [])) rid) d = None" by (simp add: days_of_def)
  then show ?thesis
    using idx_lookup[of data "([], [])" rid d]
    by (simp add: index_byRecord_alt map_of_index_byDay split: option.splits)
qed

lemma performances_set: "set (performances data) = record_id ` set data"
  using idx_keys[of data "([], [])"] by (simp add: performances_def index_byRecord_alt)

lemma performances_distinct: "distinct (performances data)"
  using idx_keys_distinct[of "([], [])" data] by (simp add: performances_def index_byRecord_alt)

lemma all_dates_set: "set (snd (index_byRecord data)) = row_date ` set data"
  by (simp add: index_byRecord_alt idx_dates)

lemma add_entry_zero: "add_entry t zero_entry = t"
  by (cases t) (simp add: add_entry_def zero_entry_def)

lemma agg_rid_eq:
  "agg_rid byRecord d rid (lk, t) =
     (lk(rid := (case map_of (days_of byRecord rid) d of None \<Rightarrow> lk rid
                 | Some e \<Rightarrow> Some (max_entry (lk_val lk rid) e))),
      add_entry t (carry (lk_val lk rid) (map_of (days_of byRecord rid) d)))"
  by (auto simp: agg_rid_def days_of_def lk_val_def carry_def add_entry_zero Let_def
      split: option.splits)

lemma lk_val_agg:
  "lk_val (fst (agg_rid byRecord d rid (lk, t))) x =
     (if x = rid then carry (lk_val lk rid) (map_of (days_of byRecord rid) d) else lk_val lk x)"
  by (auto simp: agg_rid_eq lk_val_def carry_def split: option.splits)

lemma carry_idem: "carry (carry v x) x = carry v x"
  by (cases x) (auto simp: carry_def max_entry_def)

lemma fold_agg_lk:
  "lk_val (fst (fold (agg_rid byRecord d) rids (lk, t))) x =
     (if x \<in> set rids then carry (lk_val lk x) (map_of (days_of byRecord x) d) else lk_val lk x)"
proof (induction rids arbitrary: lk t)
  case Nil
  then show ?case by simp
next
  case (Cons rid rids)
  obtain lk1 t1 where st: "agg_rid byRecord d rid (lk, t) = (lk1, t1)"
    by (cases "agg_rid byRecord d rid (lk, t)")
  have v: "lk_val lk1 y =
     (if y = rid then carry (lk_val lk rid) (map_of (days_of byRecord rid) d) else lk_val lk y)" for y
    using lk_val_agg[of byRecord d rid lk t y] st by simp
  show ?case
    by (simp add: st Cons.IH v carry_idem)
qed

lemma add_sum_entries_Cons:
  "add_entry (add_entry t x) (sum_entries xs) = add_entry t (sum_entries (x # xs))"
  by (simp add: add_entry_def sum_entries_def)

lemma fold_agg_tally:
  "snd (fold (agg_rid byRecord d) rids (lk, t)) =
     add_entry t (sum_entries
       (map (\<lambda>rid. carry (lk_val lk rid) (map_of (days_of byRecord rid) d)) rids))"
proof (induction rids arbitrary: lk t)
  case Nil
  then show ?case by (simp add: sum_entries_def add_entry_def)
next
  case (Cons rid rids)
  obtain lk1 t1 where st: "agg_rid byRecord d rid (lk, t) = (lk1, t1)"
    by (cases "agg_rid byRecord d rid (lk, t)")
  have t1: "t1 = add_entry t (carry (lk_val lk rid) (map_of (days_of byRecord rid) d))"
    using st by (simp add: agg_rid_eq)
  have v: "carry (lk_val lk1 y) (map_of (days_of byRecord y) d) =
           carry (lk_val lk y) (map_of (days_of byRecord y) d)" for y
    using lk_val_agg[of byRecord d rid lk t y] st by (simp add: carry_idem)
  show ?case
    by (simp add: st Cons.IH v t1 add_sum_entries_Cons del: list.map)
       (simp add: sum_entries_def add_entry_def)
qed

lemma zero_add_entry: "add_entry zero_entry t = t"
  by (cases t) (simp add: add_entry_def zero_entry_def)

lemma known_after_Suc:
  "d \<le> k \<Longrightarrow> known_after byDay d k v = known_after byDay (d + 1) k (carry v (map_of byDay d))"
  by (simp add: known_after_def upto_rec1[of d k])

lemma known_after_same: "known_after byDay d d v = carry v (map_of byDay d)"
  by (simp add: known_after_def)

lemma calendar_all_eq:
  "calendar_all byRecord rids d e lk =
     map (\<lambda>k. mk_point k (sum_entries
            (map (\<lambda>rid. known_after (days_of byRecord rid) d k (lk_val lk rid)) rids)))
         [d..e]"
proof (induction byRecord rids d e lk rule: calendar_all.induct)
  case (1 byRecord rids d e lk)
  show ?case
  proof (cases "d \<le> e")
    case False
    then show ?thesis by (subst calendar_all.simps) simp
  next
    case True
    obtain lk1 t1 where st: "fold (agg_rid byRecord d) rids (lk, zero_entry) = (lk1, t1)"
      by (cases "fold (agg_rid byRecord d) rids (lk, zero_entry)")
    have t1: "t1 = sum_entries
        (map (\<lambda>rid. known_after (days_of byRecord rid) d d (lk_val lk rid)) rids)"
      using fold_agg_tally[of byRecord d rids lk zero_entry] st
      by (simp add: zero_add_entry known_after_same)
    have lk1: "lk_val lk1 rid = carry (lk_val lk rid) (map_of (days_of byRecord rid) d)"
      if "rid \<in> set rids" for rid
      using fold_agg_lk[of byRecord d rids lk zero_entry rid] st that by simp
    have IH: "calendar_all byRecord rids (d + 1) e lk1 =
        map (\<lambda>k. mk_point k (sum_entries
            (map (\<lambda>rid. known_after (days_of byRecord rid) (d + 1) k (lk_val lk1 rid)) rids)))
         [d + 1..e]"
      using "1.IH"[OF True st[symmetric] refl] .
    have rest: "map (\<lambda>k. mk_point k (sum_entries
            (map (\<lambda>rid. known_after (days_of byRecord rid) (d + 1) k (lk_val lk1 rid)) rids)))
         [d + 1..e] =
        map (\<lambda>k. mk_point k (sum_entries
            (map (\<lambda>rid. known_after (days_of byRecord rid) d k (lk_val lk rid)) rids)))
         [d + 1..e]"
    proof (rule map_cong[OF refl])
      fix k assume "k \<in> set [d + 1..e]"
      then have dk: "d \<le> k" by simp
      have "map (\<lambda>rid. known_after (days_of byRecord rid) (d + 1) k (lk_val lk1 rid)) rids =
            map (\<lambda>rid. known_after (days_of byRecord rid) d k (lk_val lk rid)) rids"
        by (rule map_cong[OF refl]) (simp add: lk1 known_after_Suc[OF dk])
      then show "mk_point k (sum_entries
            (map (\<lambda>rid. known_after (days_of byRecord rid) (d + 1) k (lk_val lk1 rid)) rids)) =
          mk_point k (sum_entries
            (map (\<lambda>rid. known_after (days_of byRecord rid) d k (lk_val lk rid)) rids))"
        by (rule arg_cong[where f = "\<lambda>xs. mk_point k (sum_entries xs)"])
    qed
    show ?thesis
      using True by (subst calendar_all.simps) (simp add: st IH rest t1 upto_rec1[of d e])
  qed
qed

lemma known_after_cong:
  "(\<And>j. map_of b1 j = map_of b2 j) \<Longrightarrow> known_after b1 d k v = known_after b2 d k v"
  by (simp add: known_after_def)

lemma known_after_empty: "k < d \<Longrightarrow> known_after b d k v = v"
  by (simp add: known_after_def)

lemma carry_None: "carry v None = v"
  by (simp add: carry_def)

lemma known_after_skip_low:
  assumes "d \<le> d'" and "\<And>j. d \<le> j \<Longrightarrow> j < d' \<Longrightarrow> map_of b j = None"
  shows "known_after b d k v = known_after b d' k v"
  using assms
proof (induction "nat (d' - d)" arbitrary: d)
  case 0
  then show ?case by simp
next
  case (Suc n)
  then have lt: "d < d'" by linarith
  have IH: "known_after b (d + 1) k v = known_after b d' k v"
    using Suc.hyps(2) lt Suc.prems(2) by (intro Suc.hyps(1)) auto
  show ?case
  proof (cases "d \<le> k")
    case True
    have "map_of b d = None" using Suc.prems(2)[of d] lt by simp
    then show ?thesis using known_after_Suc[OF True, of b v] IH by (simp add: carry_None)
  next
    case False
    then show ?thesis using lt by (simp add: known_after_empty)
  qed
qed

lemma known_after_skip_high:
  assumes "k' \<le> k" and "\<And>j. k' < j \<Longrightarrow> j \<le> k \<Longrightarrow> map_of b j = None"
  shows "known_after b d k v = known_after b d k' v"
  using assms
proof (induction "nat (k - k')" arbitrary: k)
  case 0
  then show ?case by simp
next
  case (Suc n)
  then have lt: "k' < k" by linarith
  have IH: "known_after b d (k - 1) v = known_after b d k' v"
    using Suc.hyps(2) lt Suc.prems(2) by (intro Suc.hyps(1)) auto
  show ?case
  proof (cases "d \<le> k")
    case True
    have n: "map_of b k = None" using Suc.prems(2)[of k] lt by simp
    show ?thesis
    proof (cases "k = d")
      case True
      then have "known_after b d k' v = v" using lt by (simp add: known_after_empty)
      then show ?thesis using True n by (simp add: known_after_same carry_None)
    next
      case False
      then show ?thesis using known_after_step[OF True, of b v] n IH by (simp add: carry_None)
    qed
  next
    case False
    then show ?thesis using lt by (simp add: known_after_empty)
  qed
qed

lemma map_of_index_byDay_None:
  "d \<notin> row_date ` set rows \<Longrightarrow> map_of (index_byDay rows) d = None"
  using keys_index_byDay[of rows] by (metis map_of_eq_None_iff set_map)

lemma known_after_contribution:
  assumes "rows \<noteq> []" and "lo \<le> Min (row_date ` set rows)"
  shows "known_after (index_byDay rows) lo k zero_entry = contribution rows k"
proof -
  let ?b = "index_byDay rows"
  let ?lo = "Min (row_date ` set rows)" and ?hi = "Max (row_date ` set rows)"
  have fin: "finite (row_date ` set rows)" and ne: "row_date ` set rows \<noteq> {}"
    using assms(1) by auto
  have low: "map_of ?b j = None" if "j < ?lo" for j
    using that fin ne by (intro map_of_index_byDay_None) (metis Min_le not_le)
  have high: "map_of ?b j = None" if "?hi < j" for j
    using that fin ne by (intro map_of_index_byDay_None) (metis Max_ge not_le)
  have lohi: "?lo \<le> ?hi" using fin ne by simp
  have base: "known_after ?b lo k zero_entry = known_after ?b ?lo k zero_entry"
    using assms(2) low by (intro known_after_skip_low) auto
  show ?thesis
  proof (cases "k < ?lo")
    case True
    then show ?thesis using base assms(1) by (simp add: known_after_empty contribution_def Let_def)
  next
    case False
    let ?m = "min k ?hi"
    have m: "?lo \<le> ?m" "?m \<le> ?hi" "?m \<le> k" using False lohi by auto
    have "known_after ?b ?lo k zero_entry = known_after ?b ?lo ?m zero_entry"
      using high by (intro known_after_skip_high) auto
    moreover have "single_calendar rows ! nat (?m - ?lo) = mk_point ?m (known_after ?b ?lo ?m zero_entry)"
      using m by (subst single_calendar_eq[OF assms(1)]) (simp add: nth_upto)
    moreover have "contribution rows k = point_entry (single_calendar rows ! nat (?m - ?lo))"
      using False assms(1) unfolding contribution_def Let_def by (simp only: if_False)
    ultimately show ?thesis
      using base by (simp only: point_entry_mk_point)
  qed
qed

lemma aggregate_calendar_eq:
  assumes "data \<noteq> []"
  shows "aggregate_calendar data =
     map (\<lambda>d. mk_point d (sum_entries (map (\<lambda>rid. contribution (rows_of rid data) d) (performances data))))
         [Min (row_date ` set data) .. Max (row_date ` set data)]"
proof -
  let ?lo = "Min (row_date ` set data)" and ?hi = "Max (row_date ` set data)"
  obtain byRecord allDates where ix: "index_byRecord data = (byRecord, allDates)"
    by (cases "index_byRecord data")
  let ?days = "sort allDates"
  have st: "set ?days = row_date ` set data"
    using all_dates_set[of data] ix by simp
  have ne: "?days \<noteq> []" using assms st by (metis empty_is_image set_empty)
  have lo: "?days ! 0 = ?lo" using sorted_first_Min[of ?days] ne st by simp
  have hi: "?days ! (length ?days - 1) = ?hi" using sorted_last_Max[of ?days] ne st by simp
  have perf: "map fst byRecord = performances data" by (simp add: performances_def ix)
  have a: "aggregate_calendar data = calendar_all byRecord (performances data) ?lo ?hi Map.empty"
    using ne lo hi perf by (simp add: aggregate_calendar_def ix Let_def del: length_sort set_sort)
  have c: "known_after (days_of byRecord rid) ?lo k (lk_val Map.empty rid) = contribution (rows_of rid data) k"
    if "rid \<in> set (performances data)" for rid k
  proof -
    have r: "rows_of rid data \<noteq> []"
      using that performances_set[of data] by (auto simp: rows_of_def filter_empty_conv)
    have sub: "row_date ` set (rows_of rid data) \<subseteq> row_date ` set data"
      by (auto simp: rows_of_def)
    have "?lo \<le> Min (row_date ` set (rows_of rid data))"
      using r sub by (intro Min_antimono) auto
    then have "known_after (index_byDay (rows_of rid data)) ?lo k zero_entry = contribution (rows_of rid data) k"
      using r by (intro known_after_contribution)
    moreover have "known_after (days_of byRecord rid) ?lo k zero_entry =
                   known_after (index_byDay (rows_of rid data)) ?lo k zero_entry"
      using lookup_index_byRecord[of data rid] ix by (intro known_after_cong) simp
    ultimately show ?thesis by (simp add: lk_val_def)
  qed
  have "map (\<lambda>rid. known_after (days_of byRecord rid) ?lo k (lk_val Map.empty rid)) (performances data)
      = map (\<lambda>rid. contribution (rows_of rid data) k) (performances data)" for k
    by (rule map_cong[OF refl]) (rule c)
  then show ?thesis by (simp only: a calendar_all_eq)
qed

lemma aggregate_calendar_sum:
  assumes "data \<noteq> []"
  shows "aggregate_calendar data =
           map (\<lambda>d. mk_point d
                  (sum_entries (map (\<lambda>rid. contribution (rows_of rid data) d) (performances data))))
               [Min (row_date ` set data) .. Max (row_date ` set data)]
       \<and> set (performances data) = record_id ` set data
       \<and> distinct (performances data)"
  using aggregate_calendar_eq[OF assms] performances_set[of data] performances_distinct[of data]
  by simp

lemma last_row_of_day_drop_earlier:
  assumes "row_date r1 = row_date r2"
  shows "last_row_of_day (xs @ r1 # ys @ r2 # zs) d = last_row_of_day (xs @ ys @ r2 # zs) d"
  using assms by (simp add: last_row_of_day_def Let_def)

lemma sum_entries_distinct_cong:
  assumes "distinct ps" "distinct qs" "set ps = set qs"
  shows "sum_entries (map f ps) = sum_entries (map f qs)"
  using assms by (simp add: sum_entries_def o_def sum_list_distinct_conv_sum_set)

section \<open>Proofs: the series under the host's clock\<close>

text \<open>
  The loops step a date with \<^verbatim>\<open>setDate(getDate() + 1)\<close>, which works in the host's local
  time, and read the day back with \<^verbatim>\<open>toISOString()\<close>, which works in UTC. Where the local
  clock does not change over the observed span, the loops are the day-by-day calendar loops.
\<close>

lemma steady_next: "steady z a b \<Longrightarrow> a \<le> b \<Longrightarrow> next_date z (date_of_day a) = date_of_day (a + 1)"
  by (simp add: steady_def next_date_def date_of_day_def)

lemma steady_suc: "steady z a b \<Longrightarrow> steady z (a + 1) b"
  by (simp add: steady_def date_of_day_def)

lemma iso_day_date_of_day: "iso_day (date_of_day a) = a"
  by (simp add: iso_day_def date_of_day_def)

lemma fill_days_steady:
  "steady z a b \<Longrightarrow>
   fill_days z byDay (date_of_day a) (date_of_day b) known = calendar_days byDay a b known"
proof (induction byDay a b known rule: calendar_days.induct)
  case (1 byDay d e known)
  show ?case
  proof (cases "d \<le> e")
    case True
    then have le: "date_of_day d \<le> date_of_day e" by (simp add: date_of_day_def)
    have "fill_days z byDay (date_of_day (d + 1)) (date_of_day e) (carry known (map_of byDay d)) =
          calendar_days byDay (d + 1) e (carry known (map_of byDay d))"
      using "1.IH"[OF True refl] steady_suc[OF "1.prems"] by simp
    then show ?thesis
      using le True steady_next[OF "1.prems" True]
      by (subst fill_days.simps, subst calendar_days.simps)
         (simp add: Let_def iso_day_date_of_day)
  next
    case False
    then have "\<not> date_of_day d \<le> date_of_day e" by (simp add: date_of_day_def)
    then show ?thesis using False
      by (subst fill_days.simps, subst calendar_days.simps) simp
  qed
qed

lemma single_series_steady:
  assumes "data \<noteq> []" and "steady z (Min (row_date ` set data)) (Max (row_date ` set data))"
  shows "single_series z data = single_calendar data"
proof -
  let ?days = "sort (map fst (index_byDay data))"
  have ne: "?days \<noteq> []"
    using assms(1) keys_index_byDay[of data] by (metis empty_is_image set_empty set_sort)
  have st: "set ?days = row_date ` set data"
    using keys_index_byDay[of data] by simp
  have lo: "?days ! 0 = Min (row_date ` set data)"
    using sorted_first_Min[of ?days] ne st by simp
  have hi: "?days ! (length ?days - 1) = Max (row_date ` set data)"
    using sorted_last_Max[of ?days] ne st by simp
  show ?thesis
    unfolding single_series_def single_calendar_def Let_def lo hi
    using fill_days_steady[OF assms(2)] by simp
qed

lemma fill_all_steady:
  "steady z a b \<Longrightarrow>
   fill_all z byRecord rids (date_of_day a) (date_of_day b) lk = calendar_all byRecord rids a b lk"
proof (induction byRecord rids a b lk rule: calendar_all.induct)
  case (1 byRecord rids d e lk)
  show ?case
  proof (cases "d \<le> e")
    case True
    then have le: "date_of_day d \<le> date_of_day e" by (simp add: date_of_day_def)
    obtain lk1 t1 where st: "fold (agg_rid byRecord d) rids (lk, zero_entry) = (lk1, t1)"
      by (cases "fold (agg_rid byRecord d) rids (lk, zero_entry)")
    have "fill_all z byRecord rids (date_of_day (d + 1)) (date_of_day e) lk1 =
          calendar_all byRecord rids (d + 1) e lk1"
      using "1.IH"[OF True st[symmetric] refl] steady_suc[OF "1.prems"] by simp
    then show ?thesis
      using le True steady_next[OF "1.prems" True] st
      by (subst fill_all.simps, subst calendar_all.simps)
         (simp add: Let_def iso_day_date_of_day)
  next
    case False
    then have "\<not> date_of_day d \<le> date_of_day e" by (simp add: date_of_day_def)
    then show ?thesis using False
      by (subst fill_all.simps, subst calendar_all.simps) simp
  qed
qed

lemma aggregate_series_steady:
  assumes "data \<noteq> []" and "steady z (Min (row_date ` set data)) (Max (row_date ` set data))"
  shows "aggregate_series z data = aggregate_calendar data"
proof -
  obtain byRecord allDates where ix: "index_byRecord data = (byRecord, allDates)"
    by (cases "index_byRecord data")
  let ?days = "sort allDates"
  have st: "set ?days = row_date ` set data"
    using all_dates_set[of data] ix by simp
  have ne: "?days \<noteq> []" using assms(1) st by (metis empty_is_image set_empty)
  have lo: "?days ! 0 = Min (row_date ` set data)" using sorted_first_Min[of ?days] ne st by simp
  have hi: "?days ! (length ?days - 1) = Max (row_date ` set data)"
    using sorted_last_Max[of ?days] ne st by simp
  show ?thesis
    unfolding aggregate_series_def aggregate_calendar_def ix Let_def prod.case lo hi
    using fill_all_steady[OF assms(2)] by simp
qed

text \<open>
  Without a clock change between the earliest and the latest observed day, the series have
  the day-by-day form: one point per calendar day, running maxima, and sums over the
  performances.
\<close>

lemma single_series_carry_forward_steady:
  assumes "data \<noteq> []" and "steady z (Min (row_date ` set data)) (Max (row_date ` set data))"
      and "i \<le> j" and "j < length (single_series z data)"
  shows "map date (single_series z data) = [Min (row_date ` set data) .. Max (row_date ` set data)]
       \<and> single_series z data ! j =
           mk_point (Min (row_date ` set data) + int j)
             (carry (known_before (single_series z data) j)
                (map_option entry_of (last_row_of_day data (Min (row_date ` set data) + int j))))
       \<and> ventes (single_series z data ! i) \<le> ventes (single_series z data ! j)
       \<and> gratuits (single_series z data ! i) \<le> gratuits (single_series z data ! j)
       \<and> total_dollars (single_series z data ! i) \<le> total_dollars (single_series z data ! j)"
proof -
  have e: "single_series z data = single_calendar data"
    by (rule single_series_steady[OF assms(1,2)])
  have "j < length (single_calendar data)" using assms(4) e by simp
  from single_calendar_carry_forward[OF assms(1,3) this] show ?thesis unfolding e .
qed

lemma aggregate_series_sum_steady:
  assumes "data \<noteq> []" and "steady z (Min (row_date ` set data)) (Max (row_date ` set data))"
  shows "aggregate_series z data =
           map (\<lambda>d. mk_point d
                  (sum_entries (map (\<lambda>rid. contribution (rows_of rid data) d) (performances data))))
               [Min (row_date ` set data) .. Max (row_date ` set data)]"
  unfolding aggregate_series_steady[OF assms(1,2)]
  using aggregate_calendar_sum[OF assms(1)] by (rule conjunct1)

text \<open>
  Claim C1. The single-performance series should hold exactly one point per calendar day from
  the earliest to the latest observed day, each component being the running maximum of the
  rows seen so far. On the rows sold 10 on day 1 and sold 8 on day 3 the loop does so when
  the host's clock is UTC: days 1, 2, 3 with sold 10, 10, 10. When the local clock moves
  forward by an hour during day 2, the loop emits day 2 twice and never emits day 3, the
  latest observed day; when it moves back, the loop stops after day 2.
\<close>

theorem single_series_repeats_day_at_clock_change:
  "map date (single_series utc anomaly_rows) = [1, 2, 3]
   \<and> map ventes (single_series utc anomaly_rows) = [10, 10, 10]
   \<and> map date (single_series spring_zone anomaly_rows) = [1, 2, 2]
   \<and> map ventes (single_series spring_zone anomaly_rows) = [10, 10, 10]
   \<and> map date (single_series autumn_zone anomaly_rows) = [1, 2]
   \<and> map ventes (single_series autumn_zone anomaly_rows) = [10, 10]"
  by code_simp

text \<open>
  Claim C3. The aggregate series should hold one point per calendar day over the union of
  the observed days, each the sum of the performances' carried-forward values. On the rows of
  two performances with series 5, 5, 7 and 0, 3, 3 the loop gives 5, 8, 10 on days 1, 2, 3
  when the host's clock is UTC. When the local clock moves forward by an hour during day 2,
  the loop emits day 2 twice, with sum 8, and never emits day 3 with sum 10; when it moves
  back, the loop stops after day 2.
\<close>

theorem aggregate_series_repeats_day_at_clock_change:
  "map date (aggregate_series utc two_perf_rows) = [1, 2, 3]
   \<and> map ventes (aggregate_series utc two_perf_rows) = [5, 8, 10]
   \<and> map date (aggregate_series spring_zone two_perf_rows) = [1, 2, 2]
   \<and> map ventes (aggregate_series spring_zone two_perf_rows) = [5, 8, 8]
   \<and> map date (aggregate_series autumn_zone two_perf_rows) = [1, 2]
   \<and> map ventes (aggregate_series autumn_zone two_perf_rows) = [5, 8]"
  by code_simp

text \<open>
  Two index tables with the same lookups give the same series, in every zone.
\<close>

lemma fill_days_cong:
  "(\<And>k. map_of b1 k = map_of b2 k) \<Longrightarrow> fill_days z b1 d e known = fill_days z b2 d e known"
proof (induction z b1 d e known rule: fill_days.induct)
  case (1 z b1 d e known)
  show ?case
  proof (cases "d \<le> e")
    case True
    have "fill_days z b1 (next_date z d) e (carry known (map_of b1 (iso_day d))) =
          fill_days z b2 (next_date z d) e (carry known (map_of b1 (iso_day d)))"
      using "1.IH"[OF True refl refl] "1.prems" by simp
    then show ?thesis
      using True "1.prems"
      by (subst fill_days.simps, subst fill_days.simps[of z b2]) (simp add: Let_def)
  next
    case False
    then show ?thesis
      by (subst fill_days.simps, subst fill_days.simps[of z b2]) simp
  qed
qed

lemma sort_keys_eq:
  assumes "distinct xs" "distinct ys" "set xs = set ys"
  shows "sort xs = sort (ys :: int list)"
  using assms by (intro sorted_distinct_set_unique) simp_all

lemma single_series_drop_earlier:
  assumes "row_date r1 = row_date r2"
  shows "single_series z (xs @ r1 # ys @ r2 # zs) = single_series z (xs @ ys @ r2 # zs)"
proof -
  let ?D1 = "xs @ r1 # ys @ r2 # zs" and ?D2 = "xs @ ys @ r2 # zs"
  have "set (map fst (index_byDay ?D1)) = set (map fst (index_byDay ?D2))"
    using assms by (simp only: keys_index_byDay) auto
  then have k: "sort (map fst (index_byDay ?D1)) = sort (map fst (index_byDay ?D2))"
    by (intro sort_keys_eq distinct_index_byDay)
  have m: "map_of (index_byDay ?D1) j = map_of (index_byDay ?D2) j" for j
    by (simp only: map_of_index_byDay last_row_of_day_drop_earlier[OF assms])
  show ?thesis
    unfolding single_series_def Let_def k
    using fill_days_cong[of "index_byDay ?D1" "index_byDay ?D2", OF m] by simp
qed

lemma fill_all_cong:
  assumes "\<And>rid k. map_of (days_of bR1 rid) k = map_of (days_of bR2 rid) k"
      and "distinct r1" and "distinct r2" and "set r1 = set r2"
      and "\<And>rid. rid \<in> set r1 \<Longrightarrow> lk_val lk1 rid = lk_val lk2 rid"
  shows "fill_all z bR1 r1 d e lk1 = fill_all z bR2 r2 d e lk2"
  using assms
proof (induction z bR1 r1 d e lk1 arbitrary: lk2 rule: fill_all.induct)
  case (1 z bR1 r1 d e lk1)
  show ?case
  proof (cases "d \<le> e")
    case False
    then show ?thesis
      by (subst fill_all.simps, subst fill_all.simps[of z bR2]) simp
  next
    case True
    let ?day = "iso_day d"
    obtain lkA tA where stA: "fold (agg_rid bR1 ?day) r1 (lk1, zero_entry) = (lkA, tA)"
      by (cases "fold (agg_rid bR1 ?day) r1 (lk1, zero_entry)")
    obtain lkB tB where stB: "fold (agg_rid bR2 ?day) r2 (lk2, zero_entry) = (lkB, tB)"
      by (cases "fold (agg_rid bR2 ?day) r2 (lk2, zero_entry)")
    let ?f1 = "\<lambda>rid. carry (lk_val lk1 rid) (map_of (days_of bR1 rid) ?day)"
    let ?f2 = "\<lambda>rid. carry (lk_val lk2 rid) (map_of (days_of bR2 rid) ?day)"
    have tA: "tA = sum_entries (map ?f1 r1)"
      using fold_agg_tally[of bR1 ?day r1 lk1 zero_entry] stA by (simp add: zero_add_entry)
    have tB: "tB = sum_entries (map ?f2 r2)"
      using fold_agg_tally[of bR2 ?day r2 lk2 zero_entry] stB by (simp add: zero_add_entry)
    have "map ?f1 r2 = map ?f2 r2"
      using "1.prems"(1,4,5) by (intro map_cong[OF refl]) simp
    then have m: "sum_entries (map ?f1 r2) = sum_entries (map ?f2 r2)"
      by (rule arg_cong[where f = sum_entries])
    have "sum_entries (map ?f1 r1) = sum_entries (map ?f1 r2)"
      using "1.prems"(2,3,4) by (rule sum_entries_distinct_cong)
    then have t: "tA = tB" unfolding tA tB using m by (rule trans)
    have lk: "lk_val lkA rid = lk_val lkB rid" if "rid \<in> set r1" for rid
      using fold_agg_lk[of bR1 ?day r1 lk1 zero_entry rid] stA
            fold_agg_lk[of bR2 ?day r2 lk2 zero_entry rid] stB that "1.prems"(1,4,5)
      by simp
    have "fill_all z bR1 r1 (next_date z d) e lkA = fill_all z bR2 r2 (next_date z d) e lkB"
      using "1.IH"[OF True refl stA[symmetric] refl, of lkB] "1.prems"(1,2,3,4) lk by simp
    then show ?thesis
      using True stA stB t
      by (subst fill_all.simps, subst fill_all.simps[of z bR2]) (simp add: Let_def)
  qed
qed

lemma aggregate_series_drop_earlier:
  assumes "row_date r1 = row_date r2" and "record_id r1 = record_id r2"
  shows "aggregate_series z (xs @ r1 # ys @ r2 # zs) = aggregate_series z (xs @ ys @ r2 # zs)"
proof -
  let ?D1 = "xs @ r1 # ys @ r2 # zs" and ?D2 = "xs @ ys @ r2 # zs"
  obtain b1 a1 where i1: "index_byRecord ?D1 = (b1, a1)" by (cases "index_byRecord ?D1")
  obtain b2 a2 where i2: "index_byRecord ?D2 = (b2, a2)" by (cases "index_byRecord ?D2")
  have "set a1 = set a2"
    using all_dates_set[of ?D1] all_dates_set[of ?D2] i1 i2 assms(1) by auto
  moreover have "distinct a1" "distinct a2"
    using idx_dates_distinct[of "([], [])" ?D1] idx_dates_distinct[of "([], [])" ?D2] i1 i2
    by (simp_all add: index_byRecord_alt)
  ultimately have dates: "sort a1 = sort a2" by (intro sort_keys_eq)
  have p1: "map fst b1 = performances ?D1" and p2: "map fst b2 = performances ?D2"
    using i1 i2 by (simp_all add: performances_def)
  have ps: "set (performances ?D1) = set (performances ?D2)"
    using assms(2) by (auto simp: performances_set)
  have rows: "map_of (index_byDay (rows_of rid ?D1)) k = map_of (index_byDay (rows_of rid ?D2)) k"
    for rid k
  proof (cases "record_id r1 = rid")
    case True
    then have "rows_of rid ?D1 = rows_of rid xs @ r1 # rows_of rid ys @ r2 # rows_of rid zs"
      and "rows_of rid ?D2 = rows_of rid xs @ rows_of rid ys @ r2 # rows_of rid zs"
      using assms(2) by (simp_all add: rows_of_def)
    then show ?thesis
      by (simp only: map_of_index_byDay last_row_of_day_drop_earlier[OF assms(1)])
  next
    case False
    then have "rows_of rid ?D1 = rows_of rid ?D2" using assms(2) by (simp add: rows_of_def)
    then show ?thesis by simp
  qed
  have look: "map_of (days_of b1 rid) k = map_of (days_of b2 rid) k" for rid k
    using lookup_index_byRecord[of ?D1 rid k] lookup_index_byRecord[of ?D2 rid k] rows[of rid k]
    by (simp add: i1 i2)
  have "fill_all z b1 (performances ?D1) d e Map.empty = fill_all z b2 (performances ?D2) d e Map.empty"
    for d e
    by (rule fill_all_cong) (simp_all add: look performances_distinct ps)
  then show ?thesis
    unfolding aggregate_series_def i1 i2 Let_def prod.case dates p1 p2 by simp
qed

text \<open>
  Claim C10. The per-day index holds, for every day, the last row of that day in fetch
  order, in single mode and per performance in aggregate mode. An earlier row of the same
  day (and, in aggregate mode, of the same performance) has no effect on the series, whatever
  the host's clock: the series is the one obtained without it, so a higher earlier value does
  not enter the maximum. With sold 10 then sold 4 on one day the series reports 4.
\<close>

theorem same_day_last_write_wins:
  assumes "row_date r1 = row_date r2"
  shows "map_of (index_byDay data) d = map_option entry_of (last_row_of_day data d)
       \<and> map_of (days_of (fst (index_byRecord data)) rid) d =
           map_option entry_of (last_row_of_day (rows_of rid data) d)
       \<and> single_series z (xs @ r1 # ys @ r2 # zs) = single_series z (xs @ ys @ r2 # zs)
       \<and> (record_id r1 = record_id r2 \<longrightarrow>
            aggregate_series z (xs @ r1 # ys @ r2 # zs) =
            aggregate_series z (xs @ ys @ r2 # zs))
       \<and> map ventes (single_series z same_day_rows) = [4]
       \<and> map ventes (aggregate_series z same_day_rows) = [4]"
proof -
  have n: "\<not> next_date z 24 \<le> 24"
    by (cases "z 24") (simp_all add: next_date_def)
  have a: "map ventes (single_series z same_day_rows) = [4]"
    using n
    by (simp add: single_series_def same_day_rows_def index_byDay_def entry_of_def or0_def
        Let_def date_of_day_def iso_day_def fill_days.simps[of z _ 24]
        fill_days.simps[of z _ "next_date z 24"] carry_def max_entry_def zero_entry_def
        mk_point_def)
  have b: "map ventes (aggregate_series z same_day_rows) = [4]"
    using n
    by (simp add: aggregate_series_def same_day_rows_def index_byRecord_def entry_of_def or0_def
        Let_def date_of_day_def iso_day_def fill_all.simps[of z _ _ 24]
        fill_all.simps[of z _ _ "next_date z 24"] carry_def max_entry_def zero_entry_def
        mk_point_def set_add_def agg_rid_def add_entry_def split: option.splits)
  show ?thesis
    using map_of_index_byDay[of data d] lookup_index_byRecord[of data rid d]
      single_series_drop_earlier[OF assms, of z xs ys zs]
      aggregate_series_drop_earlier[OF assms, of z xs ys zs] a b
    by (simp add: map_of_index_byDay)
qed

text \<open>The hypotheses of C10 hold on the two same-day rows.\<close>

theorem same_day_last_write_wins_witness:
  "row_date (same_day_rows ! 0) = row_date (same_day_rows ! 1)
   \<and> record_id (same_day_rows ! 0) = record_id (same_day_rows ! 1)
   \<and> e_sold (entry_of (same_day_rows ! 0)) = 10
   \<and> single_series utc ([] @ same_day_rows ! 0 # [] @ same_day_rows ! 1 # []) =
       single_series utc ([] @ [] @ same_day_rows ! 1 # [])
   \<and> aggregate_series utc ([] @ same_day_rows ! 0 # [] @ same_day_rows ! 1 # []) =
       aggregate_series utc ([] @ [] @ same_day_rows ! 1 # [])
   \<and> map ventes (single_series utc [same_day_rows ! 1]) = [4]"
proof -
  have h: "row_date (same_day_rows ! 0) = row_date (same_day_rows ! 1)"
    by (simp add: same_day_rows_def)
  have h2: "record_id (same_day_rows ! 0) = record_id (same_day_rows ! 1)"
    by (simp add: same_day_rows_def)
  have v: "e_sold (entry_of (same_day_rows ! 0)) = 10" by code_simp
  have w: "map ventes (single_series utc [same_day_rows ! 1]) = [4]" by code_simp
  show ?thesis
    using same_day_last_write_wins[OF h, where xs = "[]" and ys = "[]" and zs = "[]"
        and data = same_day_rows and d = 1 and rid = "''recA''" and z = utc] h h2 v w by simp
qed

section \<open>Proofs: period statistics\<close>

lemma filteredSalesData_eq:
  "filteredSalesData s dateFrom dateTo = filter (in_range dateFrom dateTo) s"
  by (cases dateFrom; cases dateTo)
     (auto simp: filteredSalesData_def in_range_def Let_def intro: filter_cong)

lemma hd_filter_nth:
  "filter P xs \<noteq> [] \<Longrightarrow> filter P xs ! 0 = xs ! length (takeWhile (\<lambda>x. \<not> P x) xs)"
  by (induction xs) auto

lemma takeWhile_lt_length:
  "filter P xs \<noteq> [] \<Longrightarrow> length (takeWhile (\<lambda>x. \<not> P x) xs) < length xs"
  by (induction xs) auto

lemma P_first: "filter P xs \<noteq> [] \<Longrightarrow> P (xs ! length (takeWhile (\<lambda>x. \<not> P x) xs))"
  by (induction xs) auto

lemma last_filter_nth:
  assumes "filter P xs \<noteq> []"
  shows "filter P xs ! (length (filter P xs) - 1) =
         xs ! (length xs - 1 - length (takeWhile (\<lambda>x. \<not> P x) (rev xs)))"
proof -
  let ?n = "length (takeWhile (\<lambda>x. \<not> P x) (rev xs))"
  have ne: "filter P (rev xs) \<noteq> []" using assms by (simp add: filter_empty_conv)
  have lt: "?n < length xs" using takeWhile_lt_length[OF ne] by simp
  have "filter P xs ! (length (filter P xs) - 1) = last (filter P xs)"
    using assms by (simp add: last_conv_nth)
  also have "\<dots> = hd (rev (filter P xs))" using assms by (simp add: hd_rev)
  also have "\<dots> = filter P (rev xs) ! 0" using ne by (simp add: rev_filter hd_conv_nth)
  also have "\<dots> = rev xs ! ?n" using hd_filter_nth[OF ne] .
  also have "\<dots> = xs ! (length xs - Suc ?n)" using lt by (simp add: rev_nth)
  finally show ?thesis by simp
qed

lemma indexOf_first:
  "\<forall>y \<in> set pre. y \<noteq> x \<Longrightarrow> indexOf (pre @ x # rest) x = int (length pre)"
  by (induction pre) (auto simp: Let_def)

lemma indexOf_first_match:
  assumes "filter P xs \<noteq> []"
  shows "indexOf xs (xs ! length (takeWhile (\<lambda>x. \<not> P x) xs)) = int (length (takeWhile (\<lambda>x. \<not> P x) xs))"
proof -
  let ?pre = "takeWhile (\<lambda>x. \<not> P x) xs"
  let ?x = "xs ! length ?pre"
  have lt: "length ?pre < length xs" using takeWhile_lt_length[OF assms] .
  have "xs = ?pre @ dropWhile (\<lambda>x. \<not> P x) xs" by simp
  moreover have "dropWhile (\<lambda>x. \<not> P x) xs = ?x # drop (Suc (length ?pre)) xs"
    using lt by (metis Cons_nth_drop_Suc dropWhile_eq_drop)
  ultimately have split: "xs = ?pre @ ?x # drop (Suc (length ?pre)) xs" by simp
  have "\<forall>y \<in> set ?pre. y \<noteq> ?x"
    using P_first[OF assms] by (metis set_takeWhileD)
  then have "indexOf (?pre @ ?x # drop (Suc (length ?pre)) xs) ?x = int (length ?pre)"
    by (rule indexOf_first)
  then show ?thesis using split by simp
qed

lemma takeWhile_nth_holds:
  "k < length (takeWhile Q xs) \<Longrightarrow> Q (xs ! k)"
  by (metis nth_mem set_takeWhileD takeWhile_nth)

lemma in_range_bounds:
  assumes "filter P xs \<noteq> []"
  defines "a \<equiv> length (takeWhile (\<lambda>x. \<not> P x) xs)"
      and "b \<equiv> length xs - 1 - length (takeWhile (\<lambda>x. \<not> P x) (rev xs))"
  shows "a \<le> b \<and> b < length xs \<and> P (xs ! a) \<and> P (xs ! b)
       \<and> (\<forall>k < length xs. P (xs ! k) \<longrightarrow> a \<le> k \<and> k \<le> b)"
proof -
  let ?n = "length (takeWhile (\<lambda>x. \<not> P x) (rev xs))"
  have ne: "filter P (rev xs) \<noteq> []" using assms(1) by (simp add: filter_empty_conv)
  have n: "?n < length xs" using takeWhile_lt_length[OF ne] by simp
  have a: "a < length xs" unfolding a_def using takeWhile_lt_length[OF assms(1)] .
  have b: "b < length xs" unfolding b_def using n by simp
  have Pa: "P (xs ! a)" unfolding a_def using P_first[OF assms(1)] .
  have "P (rev xs ! ?n)" using P_first[OF ne] .
  then have Pb: "P (xs ! b)" unfolding b_def using n by (simp add: rev_nth)
  have lo: "a \<le> k" if "P (xs ! k)" for k
  proof (rule ccontr)
    assume "\<not> a \<le> k"
    then have "k < length (takeWhile (\<lambda>x. \<not> P x) xs)" by (simp add: a_def)
    then show False using takeWhile_nth_holds that by fastforce
  qed
  have hi: "k \<le> b" if "P (xs ! k)" "k < length xs" for k
  proof (rule ccontr)
    assume "\<not> k \<le> b"
    then have lt: "length xs - 1 - k < ?n" using that(2) n by (simp add: b_def)
    have "rev xs ! (length xs - 1 - k) = xs ! k" using that(2) by (simp add: rev_nth)
    then show False using takeWhile_nth_holds[OF lt] that(1) by simp
  qed
  show ?thesis using a b Pa Pb lo hi by auto
qed

text \<open>
  Claim C4. Whenever at least one point of the series lies in the inclusive date range,
  the period statistics are the cumulative values at the last in-range point minus the
  cumulative values of the point just before the first in-range point, and minus zero
  when the first in-range point is the first point of the series. With cumulative sold
  0, 4, 10, 10, 15 on days 1 to 5 and the range of days 3 to 5 the delta is 15 - 4 = 11.
\<close>

theorem period_delta:
  assumes "filteredSalesData s dateFrom dateTo \<noteq> []"
  shows "periodStats s (filteredSalesData s dateFrom dateTo) =
           Some \<lparr>ventesInPeriod =
                    ventes (s ! last_in_range dateFrom dateTo s) -
                    (if first_in_range dateFrom dateTo s = 0 then 0
                     else ventes (s ! (first_in_range dateFrom dateTo s - 1))),
                 revenusInPeriod =
                    total_dollars (s ! last_in_range dateFrom dateTo s) -
                    (if first_in_range dateFrom dateTo s = 0 then 0
                     else total_dollars (s ! (first_in_range dateFrom dateTo s - 1)))\<rparr>
       \<and> first_in_range dateFrom dateTo s \<le> last_in_range dateFrom dateTo s
       \<and> last_in_range dateFrom dateTo s < length s
       \<and> in_range dateFrom dateTo (s ! first_in_range dateFrom dateTo s)
       \<and> in_range dateFrom dateTo (s ! last_in_range dateFrom dateTo s)
       \<and> (\<forall>k < length s. in_range dateFrom dateTo (s ! k) \<longrightarrow>
             first_in_range dateFrom dateTo s \<le> k \<and> k \<le> last_in_range dateFrom dateTo s)
       \<and> map ventes five_day_series = [0, 4, 10, 10, 15]
       \<and> map_option ventesInPeriod
            (periodStats five_day_series (filteredSalesData five_day_series (Some 3) (Some 5))) = Some 11"
proof -
  let ?P = "in_range dateFrom dateTo"
  let ?a = "first_in_range dateFrom dateTo s" and ?b = "last_in_range dateFrom dateTo s"
  have ne: "filter ?P s \<noteq> []" using assms by (simp add: filteredSalesData_eq)
  have bounds: "?a \<le> ?b \<and> ?b < length s \<and> ?P (s ! ?a) \<and> ?P (s ! ?b)
       \<and> (\<forall>k < length s. ?P (s ! k) \<longrightarrow> ?a \<le> k \<and> k \<le> ?b)"
    unfolding first_in_range_def last_in_range_def by (rule in_range_bounds[OF ne])
  have first: "filter ?P s ! 0 = s ! ?a"
    unfolding first_in_range_def by (rule hd_filter_nth[OF ne])
  have lst: "filter ?P s ! (length (filter ?P s) - 1) = s ! ?b"
    unfolding last_in_range_def by (rule last_filter_nth[OF ne])
  have idx: "indexOf s (s ! ?a) = int ?a"
    unfolding first_in_range_def by (rule indexOf_first_match[OF ne])
  have len: "\<not> length (filter ?P s) < 1" using ne by (simp add: Suc_le_eq)
  have stats: "periodStats s (filter ?P s) =
           Some \<lparr>ventesInPeriod = ventes (s ! ?b) - (if ?a = 0 then 0 else ventes (s ! (?a - 1))),
                 revenusInPeriod = total_dollars (s ! ?b) -
                    (if ?a = 0 then 0 else total_dollars (s ! (?a - 1)))\<rparr>"
    unfolding periodStats_def Let_def first lst idx using len
    by (cases "?a = 0") (simp_all add: nat_diff_distrib')
  have ex1: "map ventes five_day_series = [0, 4, 10, 10, 15]" by code_simp
  have ex2: "map_option ventesInPeriod
            (periodStats five_day_series (filteredSalesData five_day_series (Some 3) (Some 5))) = Some 11"
    by code_simp
  show ?thesis
    unfolding filteredSalesData_eq using stats bounds ex1 ex2[unfolded filteredSalesData_eq] by blast
qed

text \<open>The hypothesis of C4 holds on the five-day series filtered to days 3 to 5.\<close>

theorem period_delta_witness:
  "filteredSalesData five_day_series (Some 3) (Some 5) \<noteq> []
   \<and> first_in_range (Some 3) (Some 5) five_day_series = 2
   \<and> last_in_range (Some 3) (Some 5) five_day_series = 4
   \<and> periodStats five_day_series (filteredSalesData five_day_series (Some 3) (Some 5)) =
        Some \<lparr>ventesInPeriod = 15 - 4, revenusInPeriod = 150 - 40\<rparr>"
proof -
  have h: "filteredSalesData five_day_series (Some 3) (Some 5) \<noteq> []" by code_simp
  have a: "first_in_range (Some 3) (Some 5) five_day_series = 2" by code_simp
  have b: "last_in_range (Some 3) (Some 5) five_day_series = 4" by code_simp
  have v: "ventes (five_day_series ! 4) = 15 \<and> ventes (five_day_series ! 1) = 4
         \<and> total_dollars (five_day_series ! 4) = 150 \<and> total_dollars (five_day_series ! 1) = 40"
    by code_simp
  show ?thesis
    using period_delta[OF h] h a b v by simp
qed

section \<open>Proofs: pagination\<close>









section \<open>Proofs: superseded requests\<close>

lemma resolve_frame:
  "length (closures (resolve z i resp st)) = length (closures st)"
  "cleanup (resolve z i resp st) = cleanup st"
  "j < length (closures st) \<Longrightarrow>
     didCancel (closures (resolve z i resp st) ! j) = didCancel (closures st ! j)"
  by (auto simp: resolve_def Let_def nth_list_update split: iteration.splits)

lemma resolve_cancelled:
  assumes "i < length (closures st)" and "didCancel (closures st ! i)"
  shows "salesData (resolve z i resp st) = salesData st"
    and "cacheRef (resolve z i resp st) = cacheRef st"
    and "loading (resolve z i resp st) = loading st"
    and "error (resolve z i resp st) = error st"
  using assms by (auto simp: resolve_def Let_def split: iteration.splits)

lemma one_current_initial: "one_current initial_page"
  by (simp add: one_current_def initial_page_def)

lemma one_current_resolve: "one_current st \<Longrightarrow> one_current (resolve z i resp st)"
  by (simp add: one_current_def resolve_frame)

lemma run_cleanup_frame:
  "length (closures (run_cleanup st)) = length (closures st)"
  "cacheRef (run_cleanup st) = cacheRef st"
  "salesData (run_cleanup st) = salesData st"
  by (auto simp: run_cleanup_def split: option.splits)

lemma run_cleanup_all_cancelled:
  assumes "one_current st" and "i < length (closures st)"
  shows "didCancel (closures (run_cleanup st) ! i)"
proof (cases "cleanup st")
  case None
  then show ?thesis using assms by (auto simp: one_current_def run_cleanup_def)
next
  case (Some k)
  then show ?thesis using assms
    by (cases "i = k") (auto simp: one_current_def run_cleanup_def nth_list_update)
qed

lemma one_current_run_effect:
  assumes "\<forall>i < length (closures st). didCancel (closures st ! i)"
  shows "one_current (run_effect d st)"
  using assms
  by (auto simp: one_current_def run_effect_def Let_def nth_append split: option.splits)

lemma one_current_step: "one_current st \<Longrightarrow> one_current (step z ev st)"
proof (cases ev)
  case (Render d)
  assume "one_current st"
  then have "\<forall>i < length (closures (run_cleanup st)). didCancel (closures (run_cleanup st) ! i)"
    using run_cleanup_all_cancelled by (simp add: run_cleanup_frame)
  then show ?thesis using Render by (simp add: step_def one_current_run_effect)
next
  case (Resolve i resp)
  assume "one_current st"
  then show ?thesis using Resolve by (simp add: step_def one_current_resolve)
qed

lemma one_current_run: "one_current st \<Longrightarrow> one_current (run z evs st)"
  unfolding run_def by (induction evs arbitrary: st) (auto simp: one_current_step)

lemma run_effect_new:
  assumes "cleanup (run_effect d st) = Some r"
  shows "r = length (closures st)"
    and "length (closures (run_effect d st)) = Suc r"
    and "\<not> didCancel (closures (run_effect d st) ! r)"
    and "fetched (closures (run_effect d st) ! r) = []"
    and "j < r \<Longrightarrow> closures (run_effect d st) ! j = closures st ! j"
  using assms
  by (auto simp: run_effect_def Let_def nth_append split: if_splits option.splits)

lemma resolve_commit:
  assumes "i < length (closures st)" and "in_flight (closures st ! i)"
      and "\<not> didCancel (closures st ! i)" and "length page < pageSize"
  shows "salesData (resolve z i (Json page) st) =
           reconstruct z (isAllMode (closures st ! i)) (fetched (closures st ! i) @ page)"
    and "cacheRef (resolve z i (Json page) st) (cacheKey (closures st ! i)) =
           Some (reconstruct z (isAllMode (closures st ! i)) (fetched (closures st ! i) @ page))"
  using assms by (auto simp: resolve_def loop_body_def Let_def)

lemma superseded_request_is_ignored:
  assumes "cleanup st1 = Some r1" and "r1 < length (closures st1)"
      and "cleanup (step z (Render d2) st1) = Some r2"
      and "in_flight (closures (step z (Render d2) st1) ! r2)"
      and "length page2 < pageSize"
  shows "r1 \<noteq> r2
       \<and> didCancel (closures (step z (Render d2) st1) ! r1)
       \<and> salesData (run z [Resolve r2 (Json page2), Resolve r1 resp1] (step z (Render d2) st1)) =
           reconstruct z (isAllMode (closures (step z (Render d2) st1) ! r2)) page2
       \<and> cacheRef (run z [Resolve r2 (Json page2), Resolve r1 resp1] (step z (Render d2) st1)) =
           (cacheRef st1)(cacheKey (closures (step z (Render d2) st1) ! r2) \<mapsto>
              reconstruct z (isAllMode (closures (step z (Render d2) st1) ! r2)) page2)"
proof -
  let ?st1' = "run_cleanup st1"
  let ?st2 = "step z (Render d2) st1"
  have st2: "?st2 = run_effect d2 ?st1'" by (simp add: step_def)
  have c: "cleanup (run_effect d2 ?st1') = Some r2" using assms(3) st2 by simp
  have r2: "r2 = length (closures st1)"
    using run_effect_new(1)[OF c] by (simp add: run_cleanup_frame)
  have len2: "length (closures ?st2) = Suc r2"
    using run_effect_new(2)[OF c] st2 by simp
  have ne: "r1 \<noteq> r2" and lt: "r1 < r2" using r2 assms(2) by auto
  have "closures ?st2 ! r1 = closures ?st1' ! r1"
    using run_effect_new(5)[OF c lt] st2 by simp
  moreover have "didCancel (closures ?st1' ! r1)"
    using assms(1,2) by (simp add: run_cleanup_def)
  ultimately have can1: "didCancel (closures ?st2 ! r1)" by simp
  have live2: "\<not> didCancel (closures ?st2 ! r2)" and f2: "fetched (closures ?st2 ! r2) = []"
    using run_effect_new(3,4)[OF c] st2 by simp_all
  have cache2: "cacheRef ?st2 = cacheRef st1"
    using assms(4) c unfolding st2
    by (auto simp: run_effect_def Let_def run_cleanup_frame split: if_splits option.splits)
  let ?st3 = "resolve z r2 (Json page2) ?st2"
  have i2: "r2 < length (closures ?st2)" using len2 by simp
  have s3: "salesData ?st3 = reconstruct z (isAllMode (closures ?st2 ! r2)) page2"
    using resolve_commit(1)[OF i2 assms(4) live2 assms(5)] f2 by simp
  have k3: "cacheRef ?st3 = (cacheRef st1)(cacheKey (closures ?st2 ! r2) \<mapsto>
              reconstruct z (isAllMode (closures ?st2 ! r2)) page2)"
    using i2 assms(4,5) live2 f2 cache2
    by (auto simp: resolve_def loop_body_def Let_def)
  have i1: "r1 < length (closures ?st3)" using lt len2 by (simp add: resolve_frame)
  have can3: "didCancel (closures ?st3 ! r1)"
    using can1 lt len2 by (simp add: resolve_frame)
  have "salesData (resolve z r1 resp1 ?st3) = salesData ?st3"
       "cacheRef (resolve z r1 resp1 ?st3) = cacheRef ?st3"
    using resolve_cancelled[OF i1 can3] by simp_all
  then show ?thesis
    using ne can1 s3 k3 by (simp add: run_def step_def)
qed

text \<open>
  Claim C8. The response of a cancelled closure changes neither the displayed series nor
  the cache (nor the loading and error states): every commit, the cache write included,
  is guarded by the flag. In every state reached from the initial page, a closure that
  is not cancelled is the one issued last. Hence when a request R1 is superseded by a
  request R2 that fetches, and the short page of R2 arrives before the response of R1,
  the displayed series is the reconstruction of R2's rows and the cache gains R2's entry
  only, whatever R1 receives afterwards.
\<close>

theorem latest_request_wins:
  "(i < length (closures st) \<and> didCancel (closures st ! i) \<longrightarrow>
      salesData (step z (Resolve i resp) st) = salesData st \<and>
      cacheRef (step z (Resolve i resp) st) = cacheRef st \<and>
      loading (step z (Resolve i resp) st) = loading st \<and>
      error (step z (Resolve i resp) st) = error st)
   \<and> (j < length (closures (run z evs initial_page)) \<and>
        \<not> didCancel (closures (run z evs initial_page) ! j) \<longrightarrow>
        Suc j = length (closures (run z evs initial_page)))
   \<and> (cleanup st1 = Some r1 \<and> r1 < length (closures st1) \<and>
        cleanup (step z (Render d2) st1) = Some r2 \<and>
        in_flight (closures (step z (Render d2) st1) ! r2) \<and> length page2 < pageSize \<longrightarrow>
        didCancel (closures (step z (Render d2) st1) ! r1) \<and>
        salesData (run z [Resolve r2 (Json page2), Resolve r1 resp1] (step z (Render d2) st1)) =
          reconstruct z (isAllMode (closures (step z (Render d2) st1) ! r2)) page2 \<and>
        cacheRef (run z [Resolve r2 (Json page2), Resolve r1 resp1] (step z (Render d2) st1)) =
          (cacheRef st1)(cacheKey (closures (step z (Render d2) st1) ! r2) \<mapsto>
             reconstruct z (isAllMode (closures (step z (Render d2) st1) ! r2)) page2))
   \<and> salesData (run utc superseded_run initial_page) = single_series utc page_B
   \<and> cacheRef (run utc superseded_run initial_page) ''recA'' = None
   \<and> cacheRef (run utc superseded_run initial_page) ''recB'' = Some (single_series utc page_B)"
proof -
  have A: "i < length (closures st) \<and> didCancel (closures st ! i) \<longrightarrow>
      salesData (step z (Resolve i resp) st) = salesData st \<and>
      cacheRef (step z (Resolve i resp) st) = cacheRef st \<and>
      loading (step z (Resolve i resp) st) = loading st \<and>
      error (step z (Resolve i resp) st) = error st"
    using resolve_cancelled[of i st z resp] by (simp add: step_def)
  have "one_current (run z evs initial_page)"
    by (rule one_current_run[OF one_current_initial])
  then have B: "j < length (closures (run z evs initial_page)) \<and>
        \<not> didCancel (closures (run z evs initial_page) ! j) \<longrightarrow>
        Suc j = length (closures (run z evs initial_page))"
    by (auto simp: one_current_def)
  have C: "cleanup st1 = Some r1 \<and> r1 < length (closures st1) \<and>
        cleanup (step z (Render d2) st1) = Some r2 \<and>
        in_flight (closures (step z (Render d2) st1) ! r2) \<and> length page2 < pageSize \<longrightarrow>
        didCancel (closures (step z (Render d2) st1) ! r1) \<and>
        salesData (run z [Resolve r2 (Json page2), Resolve r1 resp1] (step z (Render d2) st1)) =
          reconstruct z (isAllMode (closures (step z (Render d2) st1) ! r2)) page2 \<and>
        cacheRef (run z [Resolve r2 (Json page2), Resolve r1 resp1] (step z (Render d2) st1)) =
          (cacheRef st1)(cacheKey (closures (step z (Render d2) st1) ! r2) \<mapsto>
             reconstruct z (isAllMode (closures (step z (Render d2) st1) ! r2)) page2)"
    using superseded_request_is_ignored[of st1 r1 z d2 r2 page2 resp1] by blast
  have D: "salesData (run utc superseded_run initial_page) = single_series utc page_B"
    by code_simp
  have E: "cacheRef (run utc superseded_run initial_page) ''recA'' = None"
    by code_simp
  have F: "cacheRef (run utc superseded_run initial_page) ''recB'' = Some (single_series utc page_B)"
    by code_simp
  show ?thesis
    by (intro conjI) (fact A B C D E F)+
qed

text \<open>The hypotheses of C8 hold on the page with the two requests of the example.\<close>

theorem latest_request_wins_witness:
  "cleanup (step utc (Render (select_rep ''recA'')) initial_page) = Some 0
   \<and> 0 < length (closures (step utc (Render (select_rep ''recA'')) initial_page))
   \<and> cleanup two_requests = Some 1
   \<and> in_flight (closures two_requests ! 1)
   \<and> length page_B < pageSize
   \<and> didCancel (closures two_requests ! 0)
   \<and> \<not> didCancel (closures two_requests ! 1)
   \<and> salesData (run utc [Resolve 1 (Json page_B), Resolve 0 (Json page_A)] two_requests) =
       reconstruct utc False page_B
   \<and> salesData (step utc (Resolve 0 (Json page_A)) two_requests) = salesData two_requests
   \<and> Suc 1 = length (closures two_requests)"
proof -
  let ?st1 = "step utc (Render (select_rep ''recA'')) initial_page"
  have t: "two_requests = step utc (Render (select_rep ''recB'')) ?st1"
    by (simp add: two_requests_def run_def)
  have h1: "cleanup ?st1 = Some 0" by code_simp
  have h2: "0 < length (closures ?st1)" by code_simp
  have h3: "cleanup two_requests = Some 1" by code_simp
  have h4: "in_flight (closures two_requests ! 1)" by code_simp
  have h5: "length page_B < pageSize" by code_simp
  have h6: "didCancel (closures two_requests ! 0)" by code_simp
  have h7: "\<not> didCancel (closures two_requests ! 1)" by code_simp
  have h8: "0 < length (closures two_requests)" by code_simp
  have h9: "1 < length (closures (run utc [Render (select_rep ''recA''), Render (select_rep ''recB'')] initial_page))"
    by code_simp
  have m: "isAllMode (closures two_requests ! 1) = False" by code_simp
  note T = latest_request_wins[where z = utc and i = 0 and st = two_requests
      and resp = "Json page_A" and j = 1
      and evs = "[Render (select_rep ''recA''), Render (select_rep ''recB'')]"
      and ?st1.0 = ?st1 and ?r1.0 = 0 and ?d2.0 = "select_rep ''recB''" and ?r2.0 = 1
      and ?page2.0 = page_B and ?resp1.0 = "Json page_A"]
  have a: "salesData (run utc [Resolve 1 (Json page_B), Resolve 0 (Json page_A)] two_requests) =
       reconstruct utc False page_B"
    using T h1 h2 h3 h4 h5 m unfolding t[symmetric] by simp
  have b: "salesData (step utc (Resolve 0 (Json page_A)) two_requests) = salesData two_requests"
    using T h8 h6 by simp
  have c: "Suc 1 = length (closures two_requests)"
    using T h9 h7 unfolding two_requests_def by simp
  show ?thesis
    by (intro conjI) (fact h1 h2 h3 h4 h5 h6 h7 a b c)+
qed

section \<open>Proofs: totals row and alert threshold\<close>

lemma count_cell_fold:
  "fold (\<lambda>ev count. if bloc \<in> blocNames ev \<and> dayCode \<in> activeDays ev then count + 1 else count) evs n
     = n + marks_A evs bloc dayCode"
  by (induction evs arbitrary: n) (auto simp: marks_A_def isActive_A_def)

lemma count_cell_marks: "count_cell evs bloc dayCode = marks_A evs bloc dayCode"
  by (simp add: count_cell_def count_cell_fold)

lemma totals_row_eq:
  "totals_row evs =
     concat (map (\<lambda>blocName. map (\<lambda>dayCode. render_total (marks_A evs blocName dayCode)) DAY_CODES_A)
                 BLOC_ORDER_A)"
  by (simp add: totals_row_def totals_def BLOC_ORDER_A_def count_cell_marks)

lemma nth_concat_rows:
  assumes "\<And>r. r \<in> set rows \<Longrightarrow> length r = w" and "bi < length rows" and "di < w"
  shows "concat rows ! (bi * w + di) = rows ! bi ! di"
  using assms
proof (induction rows arbitrary: bi)
  case Nil
  then show ?case by simp
next
  case (Cons r rows)
  show ?case
  proof (cases bi)
    case 0
    then show ?thesis using Cons.prems by (simp add: nth_append)
  next
    case (Suc b)
    then have "concat (r # rows) ! (bi * w + di) = concat rows ! (b * w + di)"
      using Cons.prems(1)[of r] by (simp add: nth_append)
    then show ?thesis using Cons Suc by simp
  qed
qed

lemma totals_row_nth:
  assumes "bi < length BLOC_ORDER_A" and "di < length DAY_CODES_A"
  shows "totals_row evs ! (bi * length DAY_CODES_A + di) =
         render_total (marks_A evs (BLOC_ORDER_A ! bi) (DAY_CODES_A ! di))"
proof -
  let ?rows = "map (\<lambda>blocName. map (\<lambda>dayCode. render_total (marks_A evs blocName dayCode)) DAY_CODES_A)
                 BLOC_ORDER_A"
  have "concat ?rows ! (bi * length DAY_CODES_A + di) = ?rows ! bi ! di"
    using assms by (intro nth_concat_rows) auto
  then show ?thesis using assms by (simp add: totals_row_eq)
qed

text \<open>
  Claim C9. For every cell of the totals row of a week (bloc \<open>bi\<close> of \<^verbatim>\<open>BLOC_ORDER\<close>, day \<open>di\<close>
  of \<^verbatim>\<open>DAY_CODES\<close>) the over-threshold flag is set if and only if the number of event rows
  marked active in that cell is greater than 5, and the cell shows the empty string when
  that number is 0 and the number itself otherwise. A count of 5 is not flagged, a count
  of 6 is.
\<close>

theorem totals_threshold:
  assumes "bi < length BLOC_ORDER_A" and "di < length DAY_CODES_A"
  shows "(overLimit (totals_row evs ! (bi * length DAY_CODES_A + di)) \<longleftrightarrow>
            5 < marks_A evs (BLOC_ORDER_A ! bi) (DAY_CODES_A ! di))
       \<and> content (totals_row evs ! (bi * length DAY_CODES_A + di)) =
           (if marks_A evs (BLOC_ORDER_A ! bi) (DAY_CODES_A ! di) = 0 then Text ''''
            else Number (marks_A evs (BLOC_ORDER_A ! bi) (DAY_CODES_A ! di)))
       \<and> length (totals_row evs) = length BLOC_ORDER_A * length DAY_CODES_A
       \<and> \<not> overLimit (render_total 5) \<and> overLimit (render_total 6)
       \<and> content (render_total 0) = Text '''' \<and> content (render_total 6) = Number 6"
proof -
  have "length (totals_row evs) = length BLOC_ORDER_A * length DAY_CODES_A"
    by (simp add: totals_row_eq BLOC_ORDER_A_def DAY_CODES_A_def)
  then show ?thesis
    by (simp add: totals_row_nth[OF assms] render_total_def ALERT_THRESHOLD_def)
qed

text \<open>The hypotheses of C9 hold for the first cell, with five and with six marked rows.\<close>

theorem totals_threshold_witness:
  "(0::nat) < length BLOC_ORDER_A \<and> (0::nat) < length DAY_CODES_A
   \<and> marks_A (replicate 5 marked_row) (BLOC_ORDER_A ! 0) (DAY_CODES_A ! 0) = 5
   \<and> \<not> overLimit (totals_row (replicate 5 marked_row) ! (0 * length DAY_CODES_A + 0))
   \<and> marks_A (replicate 6 marked_row) (BLOC_ORDER_A ! 0) (DAY_CODES_A ! 0) = 6
   \<and> overLimit (totals_row (replicate 6 marked_row) ! (0 * length DAY_CODES_A + 0))
   \<and> content (totals_row (replicate 6 marked_row) ! (0 * length DAY_CODES_A + 1)) = Text ''''"
proof -
  have b: "(0::nat) < length BLOC_ORDER_A" and d: "(0::nat) < length DAY_CODES_A"
    and d1: "(1::nat) < length DAY_CODES_A"
    by (simp_all add: BLOC_ORDER_A_def DAY_CODES_A_def)
  have m5: "marks_A (replicate 5 marked_row) (BLOC_ORDER_A ! 0) (DAY_CODES_A ! 0) = 5"
    by (simp add: marks_A_def isActive_A_def marked_row_def BLOC_ORDER_A_def DAY_CODES_A_def)
  have m6: "marks_A (replicate 6 marked_row) (BLOC_ORDER_A ! 0) (DAY_CODES_A ! 0) = 6"
    by (simp add: marks_A_def isActive_A_def marked_row_def BLOC_ORDER_A_def DAY_CODES_A_def)
  have m0: "marks_A (replicate 6 marked_row) (BLOC_ORDER_A ! 0) (DAY_CODES_A ! 1) = 0"
    by (simp add: marks_A_def isActive_A_def marked_row_def BLOC_ORDER_A_def DAY_CODES_A_def)
  show ?thesis
    using totals_threshold[OF b d, of "replicate 5 marked_row"]
          totals_threshold[OF b d, of "replicate 6 marked_row"]
          totals_threshold[OF b d1, of "replicate 6 marked_row"] b d m5 m6 m0
    by simp
qed

section \<open>Proofs: occupancy counts of variant A\<close>

lemma in_set_map_filter: "y \<in> set (List.map_filter f xs) \<longleftrightarrow> (\<exists>x \<in> set xs. f x = Some y)"
  by (induction xs) (auto simp: List.map_filter_def)

lemma blocNames_mk_row_A:
  "B \<in> blocNames (mk_row_A blocsMap e bs) \<longleftrightarrow> (\<exists>b \<in> set bs. blocsMap b = Some B)"
  by (simp add: mk_row_A_def blocNames_of_def in_set_map_filter)

lemma count_cell_snoc:
  "count_cell (evs @ [r]) B D = count_cell evs B D + (if isActive_A r B D then 1 else 0)"
  by (simp add: count_cell_def isActive_A_def)

lemma cell_count_add_week:
  "cell_count (add_week_A selW weeksMap r wid gridData) W B D =
     cell_count gridData W B D +
     (if wid = W \<and> (selW = ''__all__'' \<or> wid = selW) \<and> weeksMap wid \<noteq> None \<and> isActive_A r B D
      then 1 else 0)"
proof (cases "(selW = ''__all__'' \<or> wid = selW) \<and> weeksMap wid \<noteq> None")
  case False
  then show ?thesis by (auto simp: add_week_A_def)
next
  case True
  then obtain info where info: "weeksMap wid = Some info" by auto
  show ?thesis
  proof (cases "wid = W")
    case False
    then show ?thesis using True info
      by (auto simp: add_week_A_def cell_count_def update_conv' Let_def)
  next
    case w: True
    show ?thesis
    proof (cases "map_of gridData wid")
      case None
      then show ?thesis using True info w
        by (auto simp: add_week_A_def cell_count_def update_conv' Let_def count_cell_def
            isActive_A_def)
    next
      case (Some g)
      then show ?thesis using True info w
        by (auto simp: add_week_A_def cell_count_def update_conv' Let_def count_cell_snoc)
    qed
  qed
qed

lemma cell_count_fold_add_week:
  "cell_count (fold (add_week_A selW weeksMap r) ws gridData) W B D =
     cell_count gridData W B D +
     (if (selW = ''__all__'' \<or> W = selW) \<and> weeksMap W \<noteq> None \<and> isActive_A r B D
      then count_list ws W else 0)"
  by (induction ws arbitrary: gridData) (auto simp: cell_count_add_week)

lemma cell_count_process_event:
  "cell_count (process_event_A sel weeksMap blocsMap e gridData) W B D =
     cell_count gridData W B D + contribution_A sel weeksMap blocsMap e W B D"
proof (cases "passes_filters sel e \<and> ev_weekLinks e \<noteq> None \<and> ev_blocLinks e \<noteq> None")
  case False
  then show ?thesis
    by (auto simp: process_event_A_def contribution_A_def passes_filters_def split: option.splits)
next
  case True
  then obtain ws bs where l: "ev_weekLinks e = Some ws" "ev_blocLinks e = Some bs" by auto
  have p: "process_event_A sel weeksMap blocsMap e gridData =
           fold (add_week_A (selectedWeekId sel) weeksMap (mk_row_A blocsMap e bs)) ws gridData"
    using True l by (auto simp: process_event_A_def passes_filters_def)
  have a: "isActive_A (mk_row_A blocsMap e bs) B D \<longleftrightarrow> in_bloc blocsMap e B \<and> D \<in> days_of_event e"
    using l by (auto simp: isActive_A_def blocNames_mk_row_A in_bloc_def links_of_def)
       (simp_all add: mk_row_A_def)
  show ?thesis
    unfolding p cell_count_fold_add_week a using True l
    by (auto simp: contribution_A_def week_shown_def links_of_def)
qed

lemma cell_count_fold_events:
  "cell_count (fold (process_event_A sel weeksMap blocsMap) es gridData) W B D =
     cell_count gridData W B D + sum_list (map (\<lambda>e. contribution_A sel weeksMap blocsMap e W B D) es)"
  by (induction es arbitrary: gridData) (auto simp: cell_count_process_event)

lemma occupancy_A_sum:
  "occupancy_A sel weekRecords blocRecords es W B D =
     sum_list (map (\<lambda>e. contribution_A sel (build_weeksMap weekRecords) (build_blocsMap blocRecords) e W B D) es)"
  using cell_count_fold_events[of sel "build_weeksMap weekRecords" "build_blocsMap blocRecords" es "[]" W B D]
  by (simp add: occupancy_A_def gridData_A_def cell_count_def)

lemma links_of_unlink: "links_of (unlink gone cell) = filter (\<lambda>l. \<not> gone l) (links_of cell)"
  by (auto simp: links_of_def unlink_def split: option.splits list.splits)

lemma unlink_None_iff: "unlink gone cell = None \<longleftrightarrow> filter (\<lambda>l. \<not> gone l) (links_of cell) = []"
  by (auto simp: links_of_def unlink_def split: option.splits list.splits)

lemma count_list_filter_neq: "W' \<noteq> W \<Longrightarrow> count_list (filter (\<lambda>w. w \<noteq> W) ws) W' = count_list ws W'"
  by (induction ws) auto

lemma count_list_filter_eq: "count_list (filter (\<lambda>w. w \<noteq> W) ws) W = 0"
  by (induction ws) auto

lemma count_list_0_if_filter_empty:
  "filter (\<lambda>w. w \<noteq> W) ws = [] \<Longrightarrow> W' \<noteq> W \<Longrightarrow> count_list ws W' = 0"
  by (induction ws) (auto split: if_splits)

lemma contribution_remove_week_same:
  "contribution_A sel wm bm (remove_week W e) W B D = 0"
  by (simp add: contribution_A_def remove_week_def links_of_unlink count_list_filter_eq)

lemma contribution_remove_week_other:
  assumes "W' \<noteq> W"
  shows "contribution_A sel wm bm (remove_week W e) W' B D = contribution_A sel wm bm e W' B D"
proof (cases "unlink (\<lambda>w. w = W) (ev_weekLinks e) = None")
  case True
  then have "count_list (links_of (ev_weekLinks e)) W' = 0"
    using assms by (simp add: unlink_None_iff count_list_0_if_filter_empty)
  then show ?thesis using True
    by (simp add: contribution_A_def remove_week_def)
next
  case False
  then have "ev_weekLinks e \<noteq> None" by (cases "ev_weekLinks e") (simp_all add: unlink_def)
  moreover have "passes_filters sel (remove_week W e) = passes_filters sel e"
    "ev_blocLinks (remove_week W e) = ev_blocLinks e"
    "in_bloc bm (remove_week W e) B = in_bloc bm e B"
    "days_of_event (remove_week W e) = days_of_event e"
    "ev_weekLinks (remove_week W e) = unlink (\<lambda>w. w = W) (ev_weekLinks e)"
    by (simp_all add: remove_week_def passes_filters_def in_bloc_def days_of_event_def)
  ultimately show ?thesis using False assms
    by (auto simp: contribution_A_def links_of_unlink count_list_filter_neq)
qed

lemma contribution_remove_bloc_same:
  "contribution_A sel wm bm (remove_bloc bm B e) W B D = 0"
  by (auto simp: contribution_A_def remove_bloc_def links_of_unlink in_bloc_def)

lemma contribution_remove_bloc_other:
  assumes "B' \<noteq> B"
  shows "contribution_A sel wm bm (remove_bloc bm B e) W B' D = contribution_A sel wm bm e W B' D"
proof (cases "unlink (\<lambda>b. bm b = Some B) (ev_blocLinks e) = None")
  case True
  then have "\<forall>b \<in> set (links_of (ev_blocLinks e)). bm b = Some B"
    by (simp add: unlink_None_iff filter_empty_conv)
  then have "\<not> in_bloc bm e B'" using assms by (auto simp: in_bloc_def)
  then show ?thesis using True
    by (simp add: contribution_A_def remove_bloc_def)
next
  case False
  then have "ev_blocLinks e \<noteq> None" by (cases "ev_blocLinks e") (simp_all add: unlink_def)
  moreover have "in_bloc bm (remove_bloc bm B e) B' \<longleftrightarrow> in_bloc bm e B'"
    using assms by (auto simp: in_bloc_def remove_bloc_def links_of_unlink)
  moreover have "passes_filters sel (remove_bloc bm B e) = passes_filters sel e"
    "ev_weekLinks (remove_bloc bm B e) = ev_weekLinks e"
    "days_of_event (remove_bloc bm B e) = days_of_event e"
    "ev_blocLinks (remove_bloc bm B e) = unlink (\<lambda>b. bm b = Some B) (ev_blocLinks e)"
    by (simp_all add: remove_bloc_def passes_filters_def days_of_event_def)
  ultimately show ?thesis using False
    by (auto simp: contribution_A_def)
qed

lemma days_of_event_remove_day:
  "days_of_event (remove_day D e) = days_of_event e - {D}"
proof -
  have "days_of_event e' = set (links_of (ev_jours e'))" for e'
    by (simp add: days_of_event_def links_of_def split: option.splits)
  then show ?thesis
    by (auto simp: remove_day_def links_of_unlink)
qed

lemma contribution_remove_day_same:
  "contribution_A sel wm bm (remove_day D e) W B D = 0"
  by (simp add: contribution_A_def days_of_event_remove_day)

lemma remove_day_frame:
  "passes_filters sel (remove_day D e) = passes_filters sel e"
  "ev_weekLinks (remove_day D e) = ev_weekLinks e"
  "ev_blocLinks (remove_day D e) = ev_blocLinks e"
  "in_bloc bm (remove_day D e) B = in_bloc bm e B"
  by (simp_all add: remove_day_def passes_filters_def in_bloc_def)

lemma contribution_remove_day_other:
  assumes "D' \<noteq> D"
  shows "contribution_A sel wm bm (remove_day D e) W B D' = contribution_A sel wm bm e W B D'"
  using assms
  by (auto simp: contribution_A_def days_of_event_remove_day remove_day_frame)

lemma occupancy_A_mid:
  "occupancy_A sel wr br (pre @ e # post) W B D =
     occupancy_A sel wr br (pre @ post) W B D +
     contribution_A sel (build_weeksMap wr) (build_blocsMap br) e W B D"
  by (simp add: occupancy_A_sum)

text \<open>
  Claim C2 as stated fails: removing a membership of an event does not leave every other
  cell alone. The event of the example is active in the cells (week 1, am, D) and
  (week 1, am, L); removing its link to week 1 removes its contribution to the first
  cell and to the second cell as well.
\<close>

theorem join_removal_counterexample:
  "occupancy_A show_all grid_weeks grid_blocs [two_day_event] ''recW1'' ''am'' ''D'' = 1
   \<and> occupancy_A show_all grid_weeks grid_blocs [two_day_event] ''recW1'' ''am'' ''L'' = 1
   \<and> occupancy_A show_all grid_weeks grid_blocs [remove_week ''recW1'' two_day_event] ''recW1'' ''am'' ''D'' = 0
   \<and> occupancy_A show_all grid_weeks grid_blocs [remove_week ''recW1'' two_day_event] ''recW1'' ''am'' ''L'' = 0
   \<and> (''recW1'', ''am'', ''L'') \<noteq> (''recW1'', ''am'', ''D'')"
  by code_simp

text \<open>
  Claim C2, amended. In variant A, an event that passes the filters, links a shown week
  \<open>W\<close>, links a bloc named \<open>B\<close> and is active on day \<open>D\<close> is counted in cell (W, B, D),
  once per link to \<open>W\<close>. Removing its link to \<open>W\<close>, its links to the blocs named \<open>B\<close>, or
  the active day \<open>D\<close> removes that contribution, and changes the count of no cell of
  another week, of another bloc, or of another day respectively. (The cells that share
  the removed member lose the event's contribution too.)
\<close>

theorem join_correctness_A:
  assumes "ev_weekLinks E = Some ws" and "W \<in> set ws"
      and "ev_blocLinks E = Some bs" and "b \<in> set bs" and "build_blocsMap br b = Some B"
      and "D \<in> days_of_event E"
      and "passes_filters sel E" and "week_shown sel (build_weeksMap wr) W"
  shows "occupancy_A sel wr br (pre @ E # post) W B D =
           occupancy_A sel wr br (pre @ post) W B D + count_list ws W
       \<and> 1 \<le> count_list ws W
       \<and> occupancy_A sel wr br (pre @ remove_week W E # post) W B D =
           occupancy_A sel wr br (pre @ post) W B D
       \<and> occupancy_A sel wr br (pre @ remove_bloc (build_blocsMap br) B E # post) W B D =
           occupancy_A sel wr br (pre @ post) W B D
       \<and> occupancy_A sel wr br (pre @ remove_day D E # post) W B D =
           occupancy_A sel wr br (pre @ post) W B D
       \<and> (\<forall>W' B' D'. W' \<noteq> W \<longrightarrow>
             occupancy_A sel wr br (pre @ remove_week W E # post) W' B' D' =
             occupancy_A sel wr br (pre @ E # post) W' B' D')
       \<and> (\<forall>W' B' D'. B' \<noteq> B \<longrightarrow>
             occupancy_A sel wr br (pre @ remove_bloc (build_blocsMap br) B E # post) W' B' D' =
             occupancy_A sel wr br (pre @ E # post) W' B' D')
       \<and> (\<forall>W' B' D'. D' \<noteq> D \<longrightarrow>
             occupancy_A sel wr br (pre @ remove_day D E # post) W' B' D' =
             occupancy_A sel wr br (pre @ E # post) W' B' D')"
proof -
  have inb: "in_bloc (build_blocsMap br) E B"
    using assms(3,4,5) by (auto simp: in_bloc_def links_of_def)
  have c: "contribution_A sel (build_weeksMap wr) (build_blocsMap br) E W B D = count_list ws W"
    using assms inb by (simp add: contribution_A_def links_of_def)
  have pos: "1 \<le> count_list ws W"
    using assms(2) by (metis One_nat_def Suc_leI count_list_0_iff neq0_conv)
  show ?thesis
    using c pos
    by (simp add: occupancy_A_mid contribution_remove_week_same contribution_remove_bloc_same
        contribution_remove_day_same contribution_remove_week_other
        contribution_remove_bloc_other contribution_remove_day_other)
qed

text \<open>The hypotheses of the amended C2 hold for the event of the example.\<close>

theorem join_correctness_A_witness:
  "ev_weekLinks two_day_event = Some [''recW1''] \<and> ''recW1'' \<in> set [''recW1'']
   \<and> ev_blocLinks two_day_event = Some [''recB1''] \<and> ''recB1'' \<in> set [''recB1'']
   \<and> build_blocsMap grid_blocs ''recB1'' = Some ''am''
   \<and> ''D'' \<in> days_of_event two_day_event
   \<and> passes_filters show_all two_day_event
   \<and> week_shown show_all (build_weeksMap grid_weeks) ''recW1''
   \<and> occupancy_A show_all grid_weeks grid_blocs ([] @ two_day_event # []) ''recW1'' ''am'' ''D'' = 1
   \<and> occupancy_A show_all grid_weeks grid_blocs ([] @ remove_day ''D'' two_day_event # []) ''recW1'' ''am'' ''D'' = 0
   \<and> occupancy_A show_all grid_weeks grid_blocs ([] @ remove_day ''D'' two_day_event # []) ''recW1'' ''am'' ''L'' = 1"
proof -
  have h1: "ev_weekLinks two_day_event = Some [''recW1'']" by (simp add: two_day_event_def)
  have h2: "''recW1'' \<in> set [''recW1'']" by simp
  have h3: "ev_blocLinks two_day_event = Some [''recB1'']" by (simp add: two_day_event_def)
  have h4: "''recB1'' \<in> set [''recB1'']" by simp
  have h5: "build_blocsMap grid_blocs ''recB1'' = Some ''am''"
    by (simp add: build_blocsMap_def grid_blocs_def)
  have h6: "''D'' \<in> days_of_event two_day_event"
    by (simp add: days_of_event_def two_day_event_def)
  have h7: "passes_filters show_all two_day_event"
    by (simp add: passes_filters_def show_all_def)
  have h8: "week_shown show_all (build_weeksMap grid_weeks) ''recW1''"
    by (simp add: week_shown_def show_all_def build_weeksMap_def grid_weeks_def)
  have e: "occupancy_A show_all grid_weeks grid_blocs [] ''recW1'' ''am'' ''D'' = 0"
    by code_simp
  have l: "occupancy_A show_all grid_weeks grid_blocs [two_day_event] ''recW1'' ''am'' ''L'' = 1"
    by code_simp
  note t = join_correctness_A[OF h1 h2 h3 h4 h5 h6 h7 h8, of "[]" "[]"]
  have a: "occupancy_A show_all grid_weeks grid_blocs ([] @ two_day_event # []) ''recW1'' ''am'' ''D'' = 1"
    using t e by simp
  have b: "occupancy_A show_all grid_weeks grid_blocs ([] @ remove_day ''D'' two_day_event # []) ''recW1'' ''am'' ''D'' = 0"
    using t e by simp
  have "''L'' \<noteq> ''D''" by simp
  then have c: "occupancy_A show_all grid_weeks grid_blocs ([] @ remove_day ''D'' two_day_event # []) ''recW1'' ''am'' ''L'' = 1"
    using t l by simp
  show ?thesis
    by (intro conjI) (fact h1 h2 h3 h4 h5 h6 h7 h8 a b c)+
qed

section \<open>Proofs: which events have rows\<close>

lemma rows_add_week_A:
  assumes "map_of (add_week_A selW wm row w grid) wid = Some g" and "r \<in> set (events g)"
  shows "(\<exists>g0. map_of grid wid = Some g0 \<and> r \<in> set (events g0)) \<or>
         (r = row \<and> wid = w \<and> wm wid \<noteq> None \<and> (selW = ''__all__'' \<or> wid = selW))"
proof (cases "(selW = ''__all__'' \<or> w = selW) \<and> wm w \<noteq> None")
  case False
  then have "add_week_A selW wm row w grid = grid" by (auto simp: add_week_A_def)
  then show ?thesis using assms by auto
next
  case True
  then obtain info where info: "wm w = Some info" by auto
  show ?thesis
  proof (cases "wid = w")
    case False
    then show ?thesis using assms True info
      by (auto simp: add_week_A_def update_conv' Let_def)
  next
    case w: True
    show ?thesis
    proof (cases "map_of grid w")
      case None
      then show ?thesis using assms True info w
        by (auto simp: add_week_A_def update_conv' Let_def)
    next
      case (Some g0)
      then show ?thesis using assms True info w
        by (auto simp: add_week_A_def update_conv' Let_def)
    qed
  qed
qed

lemma rows_fold_add_week_A:
  assumes "map_of (fold (add_week_A selW wm row) ws grid) wid = Some g" and "r \<in> set (events g)"
  shows "(\<exists>g0. map_of grid wid = Some g0 \<and> r \<in> set (events g0)) \<or>
         (r = row \<and> wid \<in> set ws \<and> wm wid \<noteq> None \<and> (selW = ''__all__'' \<or> wid = selW))"
  using assms
proof (induction ws arbitrary: grid)
  case Nil
  then show ?case by auto
next
  case (Cons w ws)
  from Cons.IH[of "add_week_A selW wm row w grid"] Cons.prems
  have "(\<exists>g0. map_of (add_week_A selW wm row w grid) wid = Some g0 \<and> r \<in> set (events g0)) \<or>
        (r = row \<and> wid \<in> set ws \<and> wm wid \<noteq> None \<and> (selW = ''__all__'' \<or> wid = selW))"
    by simp
  then show ?case
    using rows_add_week_A[of selW wm row w grid wid _ r] by auto
qed

lemma rows_process_event_A:
  assumes "map_of (process_event_A sel wm bm e grid) wid = Some g" and "r \<in> set (events g)"
  shows "(\<exists>g0. map_of grid wid = Some g0 \<and> r \<in> set (events g0)) \<or> from_event_A sel wm bm e wid r"
proof (cases "passes_filters sel e \<and> ev_weekLinks e \<noteq> None \<and> ev_blocLinks e \<noteq> None")
  case False
  then have "process_event_A sel wm bm e grid = grid"
    by (auto simp: process_event_A_def passes_filters_def split: option.splits)
  then show ?thesis using assms by auto
next
  case True
  then obtain ws bs where l: "ev_weekLinks e = Some ws" "ev_blocLinks e = Some bs" by auto
  have p: "process_event_A sel wm bm e grid =
           fold (add_week_A (selectedWeekId sel) wm (mk_row_A bm e bs)) ws grid"
    using True l by (auto simp: process_event_A_def passes_filters_def)
  show ?thesis
    using rows_fold_add_week_A[of "selectedWeekId sel" wm "mk_row_A bm e bs" ws grid wid g r]
      assms True l unfolding p
    by (auto simp: from_event_A_def week_shown_def links_of_def)
qed

lemma rows_fold_events_A:
  assumes "map_of (fold (process_event_A sel wm bm) es grid) wid = Some g" and "r \<in> set (events g)"
  shows "(\<exists>g0. map_of grid wid = Some g0 \<and> r \<in> set (events g0)) \<or>
         (\<exists>e \<in> set es. from_event_A sel wm bm e wid r)"
  using assms
proof (induction es arbitrary: grid)
  case Nil
  then show ?case by auto
next
  case (Cons e es)
  from Cons.IH[of "process_event_A sel wm bm e grid"] Cons.prems
  have "(\<exists>g0. map_of (process_event_A sel wm bm e grid) wid = Some g0 \<and> r \<in> set (events g0)) \<or>
        (\<exists>e \<in> set es. from_event_A sel wm bm e wid r)"
    by simp
  then show ?case
    using rows_process_event_A[of sel wm bm e grid wid _ r] by auto
qed

lemma distinct_add_week_A:
  "distinct (map fst grid) \<Longrightarrow> distinct (map fst (add_week_A selW wm row w grid))"
  by (auto simp: add_week_A_def distinct_update Let_def split: option.splits)

lemma distinct_process_event_A:
  "distinct (map fst grid) \<Longrightarrow> distinct (map fst (process_event_A sel wm bm e grid))"
proof -
  have "distinct (map fst grid) \<Longrightarrow> distinct (map fst (fold (add_week_A selW wm row) ws grid))"
    for selW row ws
    by (induction ws arbitrary: grid) (auto simp: distinct_add_week_A)
  then show "distinct (map fst grid) \<Longrightarrow> distinct (map fst (process_event_A sel wm bm e grid))"
    by (auto simp: process_event_A_def split: option.splits)
qed

lemma distinct_gridData_A: "distinct (map fst (gridData_A sel wr br es))"
proof -
  have "distinct (map fst grid) \<Longrightarrow> distinct (map fst (fold (process_event_A sel wm bm) es grid))"
    for wm bm grid
    by (induction es arbitrary: grid) (auto simp: distinct_process_event_A)
  then show ?thesis by (simp add: gridData_A_def)
qed

lemma rows_gridData_A:
  assumes "(wid, g) \<in> set (gridData_A sel wr br es)" and "r \<in> set (events g)"
  shows "\<exists>e \<in> set es. from_event_A sel (build_weeksMap wr) (build_blocsMap br) e wid r"
proof -
  have "map_of (gridData_A sel wr br es) wid = Some g"
    using assms(1) distinct_gridData_A by (simp add: map_of_eq_Some_iff)
  then show ?thesis
    using rows_fold_events_A[of sel "build_weeksMap wr" "build_blocsMap br" es "[]" wid g r] assms(2)
    by (simp add: gridData_A_def)
qed

lemma rows_add_bloc_B:
  assumes "map_of (add_bloc_B bm row b bs) bn = Some rows" and "r \<in> set rows"
  shows "(\<exists>rows0. map_of bs bn = Some rows0 \<and> r \<in> set rows0) \<or> (r = row \<and> bm b = Some bn)"
proof (cases "bm b")
  case None
  then show ?thesis using assms by (simp add: add_bloc_B_def)
next
  case (Some name)
  show ?thesis
  proof (cases "bn = name")
    case False
    then show ?thesis using assms Some by (simp add: add_bloc_B_def update_conv')
  next
    case True
    then show ?thesis using assms Some
      by (cases "map_of bs name") (auto simp: add_bloc_B_def update_conv')
  qed
qed

lemma rows_fold_add_bloc_B:
  assumes "map_of (fold (add_bloc_B bm row) lbs bs) bn = Some rows" and "r \<in> set rows"
  shows "(\<exists>rows0. map_of bs bn = Some rows0 \<and> r \<in> set rows0) \<or>
         (r = row \<and> (\<exists>b \<in> set lbs. bm b = Some bn))"
  using assms
proof (induction lbs arbitrary: bs)
  case Nil
  then show ?case by auto
next
  case (Cons b lbs)
  from Cons.IH[of "add_bloc_B bm row b bs"] Cons.prems
  have "(\<exists>rows0. map_of (add_bloc_B bm row b bs) bn = Some rows0 \<and> r \<in> set rows0) \<or>
        (r = row \<and> (\<exists>b \<in> set lbs. bm b = Some bn))"
    by simp
  then show ?case
    using rows_add_bloc_B[of bm row b bs bn _ r] by auto
qed

lemma rows_add_week_B:
  assumes "map_of (add_week_B wm bm row lbs w grid) wid = Some g"
      and "map_of (blocs g) bn = Some rows" and "r \<in> set rows"
  shows "(\<exists>g0 rows0. map_of grid wid = Some g0 \<and> map_of (blocs g0) bn = Some rows0 \<and> r \<in> set rows0) \<or>
         (r = row \<and> wid = w \<and> wm wid \<noteq> None \<and> (\<exists>b \<in> set lbs. bm b = Some bn))"
proof (cases "wm w")
  case None
  then have "add_week_B wm bm row lbs w grid = grid" by (simp add: add_week_B_def)
  then show ?thesis using assms by auto
next
  case (Some info)
  show ?thesis
  proof (cases "wid = w")
    case False
    then show ?thesis using assms Some
      by (auto simp: add_week_B_def update_conv' Let_def)
  next
    case w: True
    show ?thesis
    proof (cases "map_of grid w")
      case None
      then have "blocs g = fold (add_bloc_B bm row) lbs []"
        using assms(1) Some w by (auto simp: add_week_B_def update_conv' Let_def)
      then show ?thesis
        using rows_fold_add_bloc_B[of bm row lbs "[]" bn rows r] assms(2,3) Some w by auto
    next
      case g0: (Some g0)
      then have "blocs g = fold (add_bloc_B bm row) lbs (blocs g0)"
        using assms(1) Some w by (auto simp: add_week_B_def update_conv' Let_def)
      then show ?thesis
        using rows_fold_add_bloc_B[of bm row lbs "blocs g0" bn rows r] assms(2,3) Some w g0 by auto
    qed
  qed
qed

lemma rows_fold_add_week_B:
  assumes "map_of (fold (add_week_B wm bm row lbs) ws grid) wid = Some g"
      and "map_of (blocs g) bn = Some rows" and "r \<in> set rows"
  shows "(\<exists>g0 rows0. map_of grid wid = Some g0 \<and> map_of (blocs g0) bn = Some rows0 \<and> r \<in> set rows0) \<or>
         (r = row \<and> wid \<in> set ws \<and> wm wid \<noteq> None \<and> (\<exists>b \<in> set lbs. bm b = Some bn))"
  using assms
proof (induction ws arbitrary: grid)
  case Nil
  then show ?case by auto
next
  case (Cons w ws)
  from Cons.IH[of "add_week_B wm bm row lbs w grid"] Cons.prems
  have "(\<exists>g0 rows0. map_of (add_week_B wm bm row lbs w grid) wid = Some g0 \<and>
            map_of (blocs g0) bn = Some rows0 \<and> r \<in> set rows0) \<or>
        (r = row \<and> wid \<in> set ws \<and> wm wid \<noteq> None \<and> (\<exists>b \<in> set lbs. bm b = Some bn))"
    by simp
  then show ?case
    using rows_add_week_B[of wm bm row lbs w grid wid _ bn _ r] by auto
qed

lemma rows_process_event_B:
  assumes "map_of (process_event_B wm bm e grid) wid = Some g"
      and "map_of (blocs g) bn = Some rows" and "r \<in> set rows"
  shows "(\<exists>g0 rows0. map_of grid wid = Some g0 \<and> map_of (blocs g0) bn = Some rows0 \<and> r \<in> set rows0) \<or>
         from_event_B wm bm e wid bn r"
proof (cases "ev_weekLinks e \<noteq> None \<and> ev_blocLinks e \<noteq> None")
  case False
  then have "process_event_B wm bm e grid = grid"
    by (auto simp: process_event_B_def split: option.splits)
  then show ?thesis using assms by auto
next
  case True
  then obtain ws bs where l: "ev_weekLinks e = Some ws" "ev_blocLinks e = Some bs" by auto
  have p: "process_event_B wm bm e grid = fold (add_week_B wm bm (mk_row_B e) bs) ws grid"
    using l by (simp add: process_event_B_def)
  show ?thesis
    using rows_fold_add_week_B[of wm bm "mk_row_B e" bs ws grid wid g bn rows r] assms l
    unfolding p by (auto simp: from_event_B_def links_of_def)
qed

lemma rows_fold_events_B:
  assumes "map_of (fold (process_event_B wm bm) es grid) wid = Some g"
      and "map_of (blocs g) bn = Some rows" and "r \<in> set rows"
  shows "(\<exists>g0 rows0. map_of grid wid = Some g0 \<and> map_of (blocs g0) bn = Some rows0 \<and> r \<in> set rows0) \<or>
         (\<exists>e \<in> set es. from_event_B wm bm e wid bn r)"
  using assms
proof (induction es arbitrary: grid)
  case Nil
  then show ?case by auto
next
  case (Cons e es)
  from Cons.IH[of "process_event_B wm bm e grid"] Cons.prems
  have "(\<exists>g0 rows0. map_of (process_event_B wm bm e grid) wid = Some g0 \<and>
            map_of (blocs g0) bn = Some rows0 \<and> r \<in> set rows0) \<or>
        (\<exists>e \<in> set es. from_event_B wm bm e wid bn r)"
    by simp
  then show ?case
    using rows_process_event_B[of wm bm e grid wid _ bn _ r] by auto
qed

lemma distinct_gridData_B: "distinct (map fst (gridData_B wr br es))"
proof -
  have a: "distinct (map fst grid) \<Longrightarrow> distinct (map fst (add_week_B wm bm row lbs w grid))"
    for wm bm row lbs w grid
    by (auto simp: add_week_B_def distinct_update Let_def split: option.splits)
  have b: "distinct (map fst grid) \<Longrightarrow> distinct (map fst (fold (add_week_B wm bm row lbs) ws grid))"
    for wm bm row lbs ws grid
    by (induction ws arbitrary: grid) (auto simp: a)
  have c: "distinct (map fst grid) \<Longrightarrow> distinct (map fst (process_event_B wm bm e grid))"
    for wm bm e grid
    by (auto simp: process_event_B_def b split: option.splits)
  have "distinct (map fst grid) \<Longrightarrow> distinct (map fst (fold (process_event_B wm bm) es grid))"
    for wm bm grid
    by (induction es arbitrary: grid) (auto simp: c)
  then show ?thesis by (simp add: gridData_B_def)
qed

lemma rows_gridData_B:
  assumes "(wid, g) \<in> set (gridData_B wr br es)" and "cell_event_B g rowIdx bn = Some r"
  shows "\<exists>e \<in> set es. from_event_B (build_weeksMap wr) (build_blocsMap br) e wid bn r"
proof -
  have m: "map_of (gridData_B wr br es) wid = Some g"
    using assms(1) distinct_gridData_B by (simp add: map_of_eq_Some_iff)
  obtain rows where rows: "map_of (blocs g) bn = Some rows" "r \<in> set rows"
    using assms(2) by (auto simp: cell_event_B_def split: option.splits if_splits)
  show ?thesis
    using rows_fold_events_B[of "build_weeksMap wr" "build_blocsMap br" es "[]" wid g bn rows r] m rows
    by (simp add: gridData_B_def)
qed

lemma excluded_A:
  assumes "ev_weekLinks e = None \<or> ev_blocLinks e = None"
  shows "gridData_A sel wr br (pre @ e # post) = gridData_A sel wr br (pre @ post)"
proof -
  have "process_event_A sel wm bm e grid = grid" for wm bm grid
    using assms by (auto simp: process_event_A_def split: option.splits)
  then show ?thesis by (simp add: gridData_A_def)
qed

lemma excluded_B:
  assumes "ev_weekLinks e = None \<or> ev_blocLinks e = None"
  shows "gridData_B wr br (pre @ e # post) = gridData_B wr br (pre @ post)"
proof -
  have "process_event_B wm bm e grid = grid" for wm bm grid
    using assms by (auto simp: process_event_B_def split: option.splits)
  then show ?thesis by (simp add: gridData_B_def)
qed

text \<open>
  Claim C6 as stated fails in variant A: an event whose only linked bloc is absent from
  the blocs table still gets a row in its week, and the resolved bloc set of that row is
  empty.
\<close>

theorem unresolved_bloc_row_counterexample:
  "length (gridData_A show_all grid_weeks grid_blocs [orphan_bloc_event]) = 1
   \<and> map eventId (events (snd (gridData_A show_all grid_weeks grid_blocs [orphan_bloc_event] ! 0)))
       = [''recE2'']
   \<and> blocNames (events (snd (gridData_A show_all grid_weeks grid_blocs [orphan_bloc_event] ! 0)) ! 0)
       = {}
   \<and> ev_blocLinks orphan_bloc_event = Some [''recBX'']"
  by (simp add: gridData_A_def process_event_A_def add_week_A_def mk_row_A_def blocNames_of_def
      build_weeksMap_def build_blocsMap_def show_all_def grid_weeks_def grid_blocs_def
      orphan_bloc_event_def List.map_filter_def)

text \<open>
  Claim C6, amended. Every event row of the grid is the row of an event whose week-link
  and bloc-link cells are both set, and stands in the entry of a week that the event
  links and that is present in the weeks table; in variant B the row moreover stands
  under a bloc name to which one of the event's linked blocs resolves. An event whose
  week-link cell or bloc-link cell is null leaves the grid as it is without the event.
\<close>

theorem rendered_rows_resolved:
  "((wid, g) \<in> set (gridData_A sel wr br es) \<and> r \<in> set (events g) \<longrightarrow>
      (\<exists>e \<in> set es. from_event_A sel (build_weeksMap wr) (build_blocsMap br) e wid r))
   \<and> ((wid, gB) \<in> set (gridData_B wr br es) \<and> cell_event_B gB rowIdx bn = Some rB \<longrightarrow>
      (\<exists>e \<in> set es. from_event_B (build_weeksMap wr) (build_blocsMap br) e wid bn rB))
   \<and> (ev_weekLinks ev = None \<or> ev_blocLinks ev = None \<longrightarrow>
        gridData_A sel wr br (pre @ ev # post) = gridData_A sel wr br (pre @ post) \<and>
        gridData_B wr br (pre @ ev # post) = gridData_B wr br (pre @ post))"
  using rows_gridData_A[of wid g sel wr br es r] rows_gridData_B[of wid gB wr br es rowIdx bn rB]
    excluded_A[of ev sel wr br pre post] excluded_B[of ev wr br pre post]
  by blast

lemma demo_grid_A_eq:
  "demo_grid_A =
     [(''recW1'', \<lparr>weekId = ''recW1'', weekName = ''Semaine 1'', dateDebut = Some 0, dateFin = None,
         events = [mk_row_A (build_blocsMap grid_blocs) two_day_event [''recB1'']]\<rparr>)]"
  by (simp add: demo_grid_A_def gridData_A_def process_event_A_def add_week_A_def
      build_weeksMap_def show_all_def grid_weeks_def two_day_event_def)

lemma demo_grid_B_eq:
  "demo_grid_B =
     [(''recW1'', \<lparr>weekId = ''recW1'', weekName = ''Semaine 1'', dateDebut = Some 0, dateFin = None,
         blocs = [(''am'', [mk_row_B two_day_event])]\<rparr>)]"
  by (simp add: demo_grid_B_def gridData_B_def process_event_B_def add_week_B_def add_bloc_B_def
      build_weeksMap_def build_blocsMap_def grid_weeks_def grid_blocs_def two_day_event_def)

text \<open>The hypotheses of the amended C6 hold on the grids of the example.\<close>

theorem rendered_rows_resolved_witness:
  "(''recW1'', snd (demo_grid_A ! 0)) \<in> set demo_grid_A
   \<and> events (snd (demo_grid_A ! 0)) ! 0 \<in> set (events (snd (demo_grid_A ! 0)))
   \<and> from_event_A show_all (build_weeksMap grid_weeks) (build_blocsMap grid_blocs) two_day_event
         ''recW1'' (events (snd (demo_grid_A ! 0)) ! 0)
   \<and> (''recW1'', snd (demo_grid_B ! 0)) \<in> set demo_grid_B
   \<and> cell_event_B (snd (demo_grid_B ! 0)) 0 ''am'' = Some (mk_row_B two_day_event)
   \<and> from_event_B (build_weeksMap grid_weeks) (build_blocsMap grid_blocs) two_day_event
         ''recW1'' ''am'' (mk_row_B two_day_event)
   \<and> ev_blocLinks no_bloc_event = None
   \<and> gridData_A show_all grid_weeks grid_blocs ([two_day_event] @ no_bloc_event # []) = demo_grid_A
   \<and> gridData_B grid_weeks grid_blocs ([two_day_event] @ no_bloc_event # []) = demo_grid_B"
proof -
  have a1: "(''recW1'', snd (demo_grid_A ! 0)) \<in> set demo_grid_A"
    by (simp add: demo_grid_A_eq)
  have a2: "events (snd (demo_grid_A ! 0)) ! 0 \<in> set (events (snd (demo_grid_A ! 0)))"
    by (simp add: demo_grid_A_eq)
  have b1: "(''recW1'', snd (demo_grid_B ! 0)) \<in> set demo_grid_B"
    by (simp add: demo_grid_B_eq)
  have b2: "cell_event_B (snd (demo_grid_B ! 0)) 0 ''am'' = Some (mk_row_B two_day_event)"
    by (simp add: demo_grid_B_eq cell_event_B_def)
  have n: "ev_blocLinks no_bloc_event = None" by (simp add: no_bloc_event_def)
  note t = rendered_rows_resolved[of "''recW1''" "snd (demo_grid_A ! 0)" show_all grid_weeks grid_blocs
      "[two_day_event]" "events (snd (demo_grid_A ! 0)) ! 0" "snd (demo_grid_B ! 0)" 0 "''am''"
      "mk_row_B two_day_event" no_bloc_event "[two_day_event]" "[]"]
  have a3: "from_event_A show_all (build_weeksMap grid_weeks) (build_blocsMap grid_blocs) two_day_event
         ''recW1'' (events (snd (demo_grid_A ! 0)) ! 0)"
    using t a1 a2 by (simp add: demo_grid_A_def)
  have b3: "from_event_B (build_weeksMap grid_weeks) (build_blocsMap grid_blocs) two_day_event
         ''recW1'' ''am'' (mk_row_B two_day_event)"
    using t b1 b2 by (simp add: demo_grid_B_def)
  have x: "gridData_A show_all grid_weeks grid_blocs ([two_day_event] @ no_bloc_event # []) = demo_grid_A"
    "gridData_B grid_weeks grid_blocs ([two_day_event] @ no_bloc_event # []) = demo_grid_B"
    using t n by (simp_all add: demo_grid_A_def demo_grid_B_def)
  show ?thesis
    by (intro conjI) (fact a1 a2 a3 b1 b2 b3 n x)+
qed

section \<open>Proofs: order of the weeks\<close>

text \<open>
  Claim C5. The comparator answers 1 for two weeks without a start date in either
  argument order, so it does not tell the sorting procedure which of them comes first:
  their final order is the choice of the engine. With the entries of two undated weeks
  met in the order N1, N2, the insertion sort that asks about \<open>(entry, item)\<close> returns
  N2, N1 and the one that asks about \<open>(item, entry)\<close> returns N1, N2, in both variants. The
  weeks with start dates null, 8 January, 1 January are sorted to 1 January, 8 January,
  null by both.
\<close>

theorem undated_weeks_order_is_engine_dependent:
  "week_cmp (undated_entry ''recN1'') (undated_entry ''recN2'') = 1
   \<and> week_cmp (undated_entry ''recN2'') (undated_entry ''recN1'') = 1
   \<and> map fst (gridData_A show_all undated_weeks grid_blocs [event_in_weeks [''recN1'', ''recN2'']])
       = [''recN1'', ''recN2'']
   \<and> map weekId (sortedWeeks_A sort_entry_first True show_all undated_weeks grid_blocs
                    [event_in_weeks [''recN1'', ''recN2'']])
       = [''recN2'', ''recN1'']
   \<and> map weekId (sortedWeeks_A sort_item_first True show_all undated_weeks grid_blocs
                    [event_in_weeks [''recN1'', ''recN2'']])
       = [''recN1'', ''recN2'']
   \<and> map weekId (sortedWeeks_B sort_entry_first True undated_weeks grid_blocs
                    [event_in_weeks [''recN1'', ''recN2'']])
       = [''recN2'', ''recN1'']
   \<and> map weekId (sortedWeeks_B sort_item_first True undated_weeks grid_blocs
                    [event_in_weeks [''recN1'', ''recN2'']])
       = [''recN1'', ''recN2'']
   \<and> map weekId (sortedWeeks_A sort_entry_first True show_all undated_weeks grid_blocs
                    [event_in_weeks [''recN1'', ''recD8'', ''recD1'']])
       = [''recD1'', ''recD8'', ''recN1'']
   \<and> map weekId (sortedWeeks_A sort_item_first True show_all undated_weeks grid_blocs
                    [event_in_weeks [''recN1'', ''recD8'', ''recD1'']])
       = [''recD1'', ''recD8'', ''recN1'']"
  by code_simp

end
